theory Spec2Isabelle
  imports Main "HOL-Library.AList" "HOL-Library.Extended_Nat"
begin

section \<open>JavaScript strings and the string primitives the script uses\<close>

text \<open>
  A JavaScript string is a sequence of UTF-16 code units. It is modelled as a
  \<open>string\<close>: every \<open>char\<close> stands for one code unit in the range
  U+0000 .. U+00FF. Code units above U+00FF are outside the model.
\<close>

text \<open>
  The characters \<open>String.prototype.trim\<close>, \<open>trimLeft\<close> and the regular
  expression class \<open>\s\<close> treat as white space (ECMAScript WhiteSpace and
  LineTerminator), as far as they lie below U+0100: TAB, LF, VT, FF, CR, SPACE
  and NO-BREAK SPACE.
\<close>

definition isWhiteSpace :: "char \<Rightarrow> bool" where
  "isWhiteSpace c = (of_char c \<in> {9, 10, 11, 12, 13, 32, 160 :: nat})"

definition trimLeft :: "string \<Rightarrow> string" where
  "trimLeft s = dropWhile isWhiteSpace s"

definition trim :: "string \<Rightarrow> string" where
  "trim s = rev (dropWhile isWhiteSpace (rev (dropWhile isWhiteSpace s)))"

text \<open>\<open>function isBlank(line) { return line.trim().length === 0; }\<close>\<close>

definition isBlank :: "string \<Rightarrow> bool" where
  "isBlank line = (length (trim line) = 0)"

text \<open>\<open>s.startsWith(p)\<close>\<close>

definition startsWith :: "string \<Rightarrow> string \<Rightarrow> bool" where
  "startsWith s p = (take (length p) s = p)"

text \<open>
  \<open>s.substr(start)\<close> for a start that is a non-negative integer or
  \<open>Infinity\<close>: the start is clamped to the length of the string.
\<close>

definition substr :: "string \<Rightarrow> enat \<Rightarrow> string" where
  "substr s start = (case start of enat n \<Rightarrow> drop n s | \<infinity> \<Rightarrow> [])"

text \<open>\<open>s.indexOf(p)\<close>: the first position at which \<open>p\<close> occurs, if any.\<close>

fun indexOf :: "string \<Rightarrow> string \<Rightarrow> nat option" where
  "indexOf [] p = (if p = [] then Some 0 else None)"
| "indexOf (c # cs) p =
     (if take (length p) (c # cs) = p then Some 0
      else map_option Suc (indexOf cs p))"

text \<open>
  \<open>s.replace(p, r)\<close> for a string pattern \<open>p\<close> and a replacement \<open>r\<close>
  that holds no \<open>$\<close>: only the first occurrence is replaced.
\<close>

definition replaceString :: "string \<Rightarrow> string \<Rightarrow> string \<Rightarrow> string" where
  "replaceString s p r =
     (case indexOf s p of
        None \<Rightarrow> s
      | Some i \<Rightarrow> take i s @ r @ drop (i + length p) s)"

text \<open>\<open>s.replace(/\./g, r)\<close>: every dot is replaced.\<close>

definition replaceAllDots :: "string \<Rightarrow> string \<Rightarrow> string" where
  "replaceAllDots s r = concat (map (\<lambda>c. if c = CHR ''.'' then r else [c]) s)"

text \<open>\<open>s.split(d)\<close> for a one-character separator: always at least one piece.\<close>

fun splitOn :: "char \<Rightarrow> string \<Rightarrow> string list" where
  "splitOn d [] = [[]]"
| "splitOn d (c # cs) =
     (if c = d then [] # splitOn d cs
      else (case splitOn d cs of
              [] \<Rightarrow> [[c]]
            | l # ls \<Rightarrow> (c # l) # ls))"

text \<open>\<open>parts.join(sep)\<close>\<close>

fun joinWith :: "string \<Rightarrow> string list \<Rightarrow> string" where
  "joinWith sep [] = []"
| "joinWith sep [x] = x"
| "joinWith sep (x # y # ys) = x @ sep @ joinWith sep (y # ys)"

section \<open>Regular expressions\<close>

text \<open>
  The five regular expressions of the script are sequences of quantified
  single-character classes, some of them inside capturing parentheses. The
  matcher below is the backtracking matcher of ECMAScript restricted to that
  fragment: a greedy quantifier tries the longest repetition first and gives
  characters back one at a time, a lazy one tries the shortest first.
\<close>

datatype cclass =
    CLit char       \<comment> \<open>a literal character\<close>
  | CSpace          \<comment> \<open>\<open>\s\<close>\<close>
  | CName           \<comment> \<open>\<open>[A-Za-z_]\<close>\<close>
  | CSuffix         \<comment> \<open>\<open>[A-Za-z0-9_]\<close>\<close>
  | CDot            \<comment> \<open>\<open>.\<close>: anything but a line terminator\<close>

datatype quant = Once | Plus | Star | PlusLazy

datatype node =
    Atom cclass quant     \<comment> \<open>a quantified class\<close>
  | Group cclass quant    \<comment> \<open>a quantified class in capturing parentheses\<close>

type_synonym regex = "node list"

definition isUpper :: "char \<Rightarrow> bool" where
  "isUpper c = (65 \<le> (of_char c :: nat) \<and> (of_char c :: nat) \<le> 90)"

definition isLower :: "char \<Rightarrow> bool" where
  "isLower c = (97 \<le> (of_char c :: nat) \<and> (of_char c :: nat) \<le> 122)"

definition isDigit :: "char \<Rightarrow> bool" where
  "isDigit c = (48 \<le> (of_char c :: nat) \<and> (of_char c :: nat) \<le> 57)"

fun classMatches :: "cclass \<Rightarrow> char \<Rightarrow> bool" where
  "classMatches (CLit d) c = (c = d)"
| "classMatches CSpace c = isWhiteSpace c"
| "classMatches CName c = (isUpper c \<or> isLower c \<or> c = CHR ''_'')"
| "classMatches CSuffix c = (isUpper c \<or> isLower c \<or> isDigit c \<or> c = CHR ''_'')"
| "classMatches CDot c = (c \<noteq> CHR 0x0A \<and> c \<noteq> CHR 0x0D)"

text \<open>The repetition counts a quantifier tries, in order, when at most \<open>n\<close>
  characters in a row belong to the class.\<close>

fun candidates :: "quant \<Rightarrow> nat \<Rightarrow> nat list" where
  "candidates Once n = (if 1 \<le> n then [1] else [])"
| "candidates Plus n = rev [1 ..< Suc n]"
| "candidates Star n = rev [0 ..< Suc n]"
| "candidates PlusLazy n = [1 ..< Suc n]"

fun firstSuccess :: "nat list \<Rightarrow> (nat \<Rightarrow> 'a option) \<Rightarrow> 'a option" where
  "firstSuccess [] f = None"
| "firstSuccess (k # ks) f =
     (case f k of Some r \<Rightarrow> Some r | None \<Rightarrow> firstSuccess ks f)"

fun nodeClass :: "node \<Rightarrow> cclass" where
  "nodeClass (Atom c q) = c"
| "nodeClass (Group c q) = c"

fun nodeQuant :: "node \<Rightarrow> quant" where
  "nodeQuant (Atom c q) = q"
| "nodeQuant (Group c q) = q"

fun nodeCaptures :: "node \<Rightarrow> bool" where
  "nodeCaptures (Atom c q) = False"
| "nodeCaptures (Group c q) = True"

text \<open>
  \<open>matchHere re s\<close> matches \<open>re\<close> at the start of \<open>s\<close>; it returns the
  captured groups and the number of characters the match consumed.
\<close>

fun matchHere :: "regex \<Rightarrow> string \<Rightarrow> (string list \<times> nat) option" where
  "matchHere [] s = Some ([], 0)"
| "matchHere (n # ns) s =
     firstSuccess
       (candidates (nodeQuant n) (length (takeWhile (classMatches (nodeClass n)) s)))
       (\<lambda>k. case matchHere ns (drop k s) of
               None \<Rightarrow> None
             | Some (caps, len) \<Rightarrow>
                 Some (if nodeCaptures n then take k s # caps else caps, k + len))"

text \<open>
  The result of \<open>RegExp.prototype.exec\<close> (and of \<open>s.match(re)\<close> for a
  regular expression without the \<open>g\<close> flag): the position of the leftmost
  match, the matched text and the captured groups.
\<close>

record matchResult =
  index :: nat
  matched :: string
  groups :: "string list"

fun execFrom :: "regex \<Rightarrow> nat \<Rightarrow> string \<Rightarrow> matchResult option" where
  "execFrom re i [] =
     (case matchHere re [] of
        None \<Rightarrow> None
      | Some (caps, len) \<Rightarrow> Some \<lparr>index = i, matched = [], groups = caps\<rparr>)"
| "execFrom re i (c # cs) =
     (case matchHere re (c # cs) of
        None \<Rightarrow> execFrom re (Suc i) cs
      | Some (caps, len) \<Rightarrow>
          Some \<lparr>index = i, matched = take len (c # cs), groups = caps\<rparr>)"

definition match :: "string \<Rightarrow> regex \<Rightarrow> matchResult option" where
  "match s re = execFrom re 0 s"

definition lit :: "string \<Rightarrow> regex" where
  "lit s = map (\<lambda>c. Atom (CLit c) Once) s"

text \<open>\<open>const RE_SNIPPETS_SEPARATION = /\[SNIPPETS_SEPARATION\s+enabled\]/;\<close>\<close>

definition RE_SNIPPETS_SEPARATION :: regex where
  "RE_SNIPPETS_SEPARATION =
     lit ''[SNIPPETS_SEPARATION'' @ [Atom CSpace Plus] @ lit ''enabled]''"

text \<open>\<open>const RE_SNIPPETS_SUFFIX = /\[SNIPPETS_SUFFIX\s+([A-Za-z0-9_]+)\]/;\<close>\<close>

definition RE_SNIPPETS_SUFFIX :: regex where
  "RE_SNIPPETS_SUFFIX =
     lit ''[SNIPPETS_SUFFIX'' @ [Atom CSpace Plus, Group CSuffix Plus] @ lit '']''"

text \<open>\<open>const RE_START_SNIPPET = /\[START\s+([A-Za-z_]+)\s*\]/;\<close>\<close>

definition RE_START_SNIPPET :: regex where
  "RE_START_SNIPPET =
     lit ''[START'' @ [Atom CSpace Plus, Group CName Plus, Atom CSpace Star] @ lit '']''"

text \<open>\<open>const RE_END_SNIPPET = /\[END\s+([A-Za-z_]+)\s*\]/;\<close>\<close>

definition RE_END_SNIPPET :: regex where
  "RE_END_SNIPPET =
     lit ''[END'' @ [Atom CSpace Plus, Group CName Plus, Atom CSpace Star] @ lit '']''"

text \<open>\<open>const RE_REQUIRE = /const {(.+?)} = require\((.+?)\)/;\<close>\<close>

definition RE_REQUIRE :: regex where
  "RE_REQUIRE =
     lit ''const {'' @ [Group CDot PlusLazy] @ lit ''} = require('' @
     [Group CDot PlusLazy] @ lit '')''"

text \<open>
  \<open>m[n]\<close> for a match result \<open>m\<close>: the matched text for \<open>n = 0\<close>, the
  \<open>n\<close>-th captured group otherwise.
\<close>

definition matchAt :: "matchResult \<Rightarrow> nat \<Rightarrow> string" where
  "matchAt m n = (if n = 0 then matched m else groups m ! (n - 1))"

text \<open>
  The expansion of a replacement template (ECMAScript GetSubstitution, for a
  regular expression without named groups): \<open>$$\<close>, \<open>$&\<close>, the text before
  and after the match, and \<open>$n\<close> / \<open>$nn\<close>. A two-digit reference beyond the
  number of groups is read as a one-digit reference followed by a digit; a
  reference to no group stays as it is written.
\<close>

definition digitValue :: "char \<Rightarrow> nat" where
  "digitValue c = of_char c - 48"

fun getSubstitution :: "string \<Rightarrow> string \<Rightarrow> nat \<Rightarrow> string list \<Rightarrow> string \<Rightarrow> string" where
  "getSubstitution m str pos caps [] = []"
| "getSubstitution m str pos caps [c] = [c]"
| "getSubstitution m str pos caps (c # d # rest) =
     (if c \<noteq> CHR ''$'' then c # getSubstitution m str pos caps (d # rest)
      else if d = CHR ''$'' then CHR ''$'' # getSubstitution m str pos caps rest
      else if d = CHR ''&'' then m @ getSubstitution m str pos caps rest
      else if d = CHR 0x60 then take pos str @ getSubstitution m str pos caps rest
      else if d = CHR 0x27 then
        drop (pos + length m) str @ getSubstitution m str pos caps rest
      else if isDigit d then
        (case rest of
           e # rest' \<Rightarrow>
             if isDigit e \<and> 10 * digitValue d + digitValue e \<le> length caps then
               (if 1 \<le> 10 * digitValue d + digitValue e
                then caps ! (10 * digitValue d + digitValue e - 1) @
                     getSubstitution m str pos caps rest'
                else c # d # e # getSubstitution m str pos caps rest')
             else if 1 \<le> digitValue d \<and> digitValue d \<le> length caps then
               caps ! (digitValue d - 1) @ getSubstitution m str pos caps rest
             else c # d # getSubstitution m str pos caps rest
         | [] \<Rightarrow>
             if 1 \<le> digitValue d \<and> digitValue d \<le> length caps then
               caps ! (digitValue d - 1)
             else [c, d])
      else c # getSubstitution m str pos caps (d # rest))"

text \<open>\<open>s.replace(re, template)\<close> for a regular expression without the \<open>g\<close>
  flag: the leftmost match is replaced, the rest of the string is kept.\<close>

definition replace :: "string \<Rightarrow> regex \<Rightarrow> string \<Rightarrow> string" where
  "replace s re template =
     (case match s re of
        None \<Rightarrow> s
      | Some m \<Rightarrow>
          take (index m) s @
          getSubstitution (matched m) s (index m) (groups m) template @
          drop (index m + length (matched m)) s)"

section \<open>Arrays and objects\<close>

text \<open>What the script can throw. The two \<open>Error\<close>s of
  \<open>collectSnippets\<close> carry the snippet name of their message; a
  \<open>TypeError\<close> is what reading a property of \<open>undefined\<close> or \<open>null\<close>,
  or calling something that is not a function, raises.\<close>

datatype error =
    DuplicateSnippetName string   \<comment> \<open>"Detected more than one snippet with the tag ..."\<close>
  | UnmatchedEndTag string        \<comment> \<open>"Unrecognized END tag ... in ..."\<close>
  | TypeError

text \<open>\<open>xs.findIndex(p)\<close>, and \<open>xs.indexOf(x)\<close> on an array: \<open>-1\<close> when
  there is none.\<close>

fun findIndex :: "('a \<Rightarrow> bool) \<Rightarrow> 'a list \<Rightarrow> int" where
  "findIndex P [] = - 1"
| "findIndex P (x # xs) =
     (if P x then 0
      else (let i = findIndex P xs in if i < 0 then - 1 else i + 1))"

text \<open>\<open>xs[i]\<close>: \<open>undefined\<close> (here \<open>None\<close>) out of range.\<close>

definition arrayGet :: "'a list \<Rightarrow> int \<Rightarrow> 'a option" where
  "arrayGet xs i = (if 0 \<le> i \<and> i < int (length xs) then Some (xs ! nat i) else None)"

text \<open>\<open>xs.splice(i, 1)\<close>, as the array it leaves: a negative \<open>i\<close> counts
  from the end.\<close>

definition spliceOne :: "'a list \<Rightarrow> int \<Rightarrow> 'a list" where
  "spliceOne xs i =
     (let start = (if i < 0 then nat (max (int (length xs) + i) 0)
                   else min (nat i) (length xs))
      in take start xs @ drop (Suc start) xs)"

text \<open>\<open>Math.min(...xs)\<close>: \<open>Infinity\<close> for no argument.\<close>

definition mathMin :: "nat list \<Rightarrow> enat" where
  "mathMin xs = foldr (\<lambda>n m. min (enat n) m) xs \<infinity>"

text \<open>
  \<open>config.map\<close> is a plain object \<open>{}\<close>: its own properties in insertion
  order, modelled as an association list, and behind them the properties it
  inherits from \<open>Object.prototype\<close>. These are the inherited property names
  (of Node.js) that are made of letters and underscores.
\<close>

definition objectPrototypeKeys :: "string list" where
  "objectPrototypeKeys =
     [''constructor'', ''hasOwnProperty'', ''isPrototypeOf'', ''propertyIsEnumerable'',
      ''toLocaleString'', ''toString'', ''valueOf'', ''__defineGetter__'',
      ''__defineSetter__'', ''__lookupGetter__'', ''__lookupSetter__'', ''__proto__'']"

datatype 'a property = Own 'a | Inherited | Undefined

text \<open>\<open>obj[key]\<close>\<close>

definition getProperty :: "(string \<times> 'a) list \<Rightarrow> string \<Rightarrow> 'a property" where
  "getProperty obj key =
     (case map_of obj key of
        Some v \<Rightarrow> Own v
      | None \<Rightarrow> if key \<in> set objectPrototypeKeys then Inherited else Undefined)"

text \<open>\<open>obj[key].push(line)\<close>: only an own property holds an array.\<close>

definition pushLine ::
  "(string \<times> string list) list \<Rightarrow> string \<Rightarrow> string \<Rightarrow> error + (string \<times> string list) list" where
  "pushLine obj key line =
     (case getProperty obj key of
        Own v \<Rightarrow> Inr (AList.update key (v @ [line]) obj)
      | Inherited \<Rightarrow> Inl TypeError
      | Undefined \<Rightarrow> Inl TypeError)"

section \<open>The transforms of a snippet\<close>

text \<open>
  \<open>replaceRequireWithImport\<close>: every line that matches \<open>RE_REQUIRE\<close> has
  its leftmost match rewritten by the template \<open>import {$1} from $2\<close>; the
  loop pushes one output line per input line.
\<close>

definition replaceRequireWithImport :: "string list \<Rightarrow> string list" where
  "replaceRequireWithImport lines =
     map (\<lambda>line.
            if match line RE_REQUIRE \<noteq> None
            then replace line RE_REQUIRE ''import {$1} from $2''
            else line) lines"

text \<open>
  \<open>addSuffixToSnippetNames\<close>: the templates are the template literals
  \<open>`[START $1${snippetSuffix}]`\<close> and \<open>`[END $1${snippetSuffix}]`\<close>, so the
  suffix is part of the replacement template.
\<close>

definition addSuffixToSnippetNames :: "string list \<Rightarrow> string \<Rightarrow> string list" where
  "addSuffixToSnippetNames lines snippetSuffix =
     map (\<lambda>line.
            if match line RE_START_SNIPPET \<noteq> None
            then replace line RE_START_SNIPPET (''[START $1'' @ snippetSuffix @ '']'')
            else if match line RE_END_SNIPPET \<noteq> None
            then replace line RE_END_SNIPPET (''[END $1'' @ snippetSuffix @ '']'')
            else line) lines"

definition adjustIndentation :: "string list \<Rightarrow> string list" where
  "adjustIndentation lines =
     (let nonBlankLines = filter (\<lambda>l. \<not> isBlank l) lines;
          indentSizes = map (\<lambda>l. length l - length (trimLeft l)) nonBlankLines;
          minIndent = mathMin indentSizes
      in map (\<lambda>line. if isBlank line then [] else substr line minIndent) lines)"

text \<open>
  \<open>removeFirstLineAfterComments\<close>: \<open>isBlank(outputLines[firstNonComment])\<close>
  would raise a \<open>TypeError\<close> on \<open>undefined\<close>; the test
  \<open>firstNonComment >= 0\<close> stands before it.
\<close>

definition removeFirstLineAfterComments :: "string list \<Rightarrow> error + string list" where
  "removeFirstLineAfterComments lines =
     (let outputLines = lines;
          firstNonComment = findIndex (\<lambda>l. \<not> startsWith l ''//'') outputLines
      in if firstNonComment \<ge> 0 then
           (case arrayGet outputLines firstNonComment of
              None \<Rightarrow> Inl TypeError
            | Some l \<Rightarrow>
                if isBlank l then Inr (spliceOne outputLines firstNonComment)
                else Inr outputLines)
         else Inr outputLines)"

definition preambleLines :: "string \<Rightarrow> string list" where
  "preambleLines sourceFile =
     [''// This snippet file was generated by processing the source file:'',
      ''// '' @ sourceFile,
      ''//'',
      ''// To update the snippets in this file, edit the source and then run'',
      ''// '' @ [CHR 0x27] @ ''npm run snippets'' @ [CHR 0x27] @ ''.'',
      []]"

definition processSnippet :: "string list \<Rightarrow> string \<Rightarrow> string \<Rightarrow> error + string" where
  "processSnippet lines sourceFile snippetSuffix =
     (let outputLines = replaceRequireWithImport lines;
          outputLines = addSuffixToSnippetNames outputLines snippetSuffix;
          outputLines = adjustIndentation outputLines
      in case removeFirstLineAfterComments outputLines of
           Inl e \<Rightarrow> Inl e
         | Inr outputLines \<Rightarrow>
             Inr (joinWith [CHR 0x0A] (preambleLines sourceFile @ outputLines)))"

section \<open>Collecting the snippets of a file\<close>

record SnippetsConfig =
  enabled :: bool
  suffix :: string
  map' :: "(string \<times> string list) list"

definition DEFAULT_SUFFIX :: string where
  "DEFAULT_SUFFIX = ''_modular''"

text \<open>The state of the scan: the configuration and \<open>inSnippetNames\<close>.\<close>

type_synonym scan = "SnippetsConfig \<times> string list"

text \<open>Every open snippet gets the line:
  \<open>for (const snippetName of inSnippetNames) config.map[snippetName].push(line)\<close>\<close>

fun pushAll ::
  "(string \<times> string list) list \<Rightarrow> string list \<Rightarrow> string \<Rightarrow> error + (string \<times> string list) list" where
  "pushAll obj [] line = Inr obj"
| "pushAll obj (snippetName # names) line =
     (case pushLine obj snippetName line of
        Inl e \<Rightarrow> Inl e
      | Inr obj' \<Rightarrow> pushAll obj' names line)"

text \<open>\<open>inSnippetNames.splice(inSnippetNames.indexOf(snippetName), 1)\<close>\<close>

definition removeName :: "string \<Rightarrow> string list \<Rightarrow> string list" where
  "removeName snippetName names = spliceOne names (findIndex (\<lambda>n. n = snippetName) names)"

text \<open>The body of the loop over the lines.\<close>

definition collectLine :: "string \<Rightarrow> scan \<Rightarrow> error + scan" where
  "collectLine line st =
     (let config = fst st; inSnippetNames = snd st
      in case match line RE_START_SNIPPET of
           Some startMatch \<Rightarrow>
             (let snippetName = matchAt startMatch 1
              in if getProperty (map' config) snippetName \<noteq> Undefined
                 then Inl (DuplicateSnippetName snippetName)
                 else Inr (config\<lparr>map' := AList.update snippetName [line] (map' config)\<rparr>,
                           inSnippetNames @ [snippetName]))
         | None \<Rightarrow>
             (case match line RE_END_SNIPPET of
                Some endMatch \<Rightarrow>
                  (let snippetName = matchAt endMatch 1
                   in if snippetName \<notin> set inSnippetNames
                      then Inl (UnmatchedEndTag snippetName)
                      else (case pushLine (map' config) snippetName line of
                              Inl e \<Rightarrow> Inl e
                            | Inr obj \<Rightarrow>
                                Inr (config\<lparr>map' := obj\<rparr>,
                                     removeName snippetName inSnippetNames)))
              | None \<Rightarrow>
                  if length inSnippetNames > 0
                  then (case pushAll (map' config) inSnippetNames line of
                          Inl e \<Rightarrow> Inl e
                        | Inr obj \<Rightarrow> Inr (config\<lparr>map' := obj\<rparr>, inSnippetNames))
                  else Inr (config, inSnippetNames)))"

fun collectLines :: "string list \<Rightarrow> scan \<Rightarrow> error + scan" where
  "collectLines [] st = Inr st"
| "collectLines (line # lines) st =
     (case collectLine line st of
        Inl e \<Rightarrow> Inl e
      | Inr st' \<Rightarrow> collectLines lines st')"

text \<open>
  The configuration before the scan: whether the file is enabled, and its
  suffix. \<open>if (suffixLine)\<close> is false for \<open>undefined\<close> and for the empty
  string; \<open>m[1]\<close> would raise a \<open>TypeError\<close> if \<open>m\<close> were \<open>null\<close>.
\<close>

definition readSuffix :: "string list \<Rightarrow> SnippetsConfig \<Rightarrow> error + SnippetsConfig" where
  "readSuffix lines config =
     (case find (\<lambda>l. match l RE_SNIPPETS_SUFFIX \<noteq> None) lines of
        None \<Rightarrow> Inr config
      | Some suffixLine \<Rightarrow>
          if suffixLine = [] then Inr config
          else (case match suffixLine RE_SNIPPETS_SUFFIX of
                  None \<Rightarrow> Inl TypeError
                | Some m \<Rightarrow> Inr (config\<lparr>suffix := matchAt m 1\<rparr>)))"

text \<open>\<open>collectSnippets\<close>, from the lines of the file.\<close>

definition collectSnippetLines :: "string list \<Rightarrow> error + SnippetsConfig" where
  "collectSnippetLines lines =
     (let config = \<lparr>enabled = False, suffix = DEFAULT_SUFFIX, map' = []\<rparr>;
          config = config\<lparr>enabled := list_ex (\<lambda>l. match l RE_SNIPPETS_SEPARATION \<noteq> None) lines\<rparr>
      in if \<not> enabled config then Inr config
         else (case readSuffix lines config of
                 Inl e \<Rightarrow> Inl e
               | Inr config \<Rightarrow>
                   (case collectLines lines (config, []) of
                      Inl e \<Rightarrow> Inl e
                    | Inr st \<Rightarrow> Inr (fst st))))"

text \<open>\<open>collectSnippets\<close>, from what \<open>fs.readFileSync(filePath).toString()\<close>
  returned.\<close>

definition collectSnippets :: "string \<Rightarrow> error + SnippetsConfig" where
  "collectSnippets fileContents = collectSnippetLines (splitOn (CHR 0x0A) fileContents)"

section \<open>The output files\<close>

text \<open>
  Node's \<open>path.join\<close> for POSIX paths: the non-empty arguments are joined
  by \<open>/\<close> and the result is normalized (empty and \<open>.\<close> segments dropped,
  a \<open>..\<close> segment taking the segment before it away, a trailing \<open>/\<close> kept).
\<close>

fun normalizeSegments :: "bool \<Rightarrow> string list \<Rightarrow> string list \<Rightarrow> string list" where
  "normalizeSegments allowAboveRoot res [] = res"
| "normalizeSegments allowAboveRoot res (seg # segs) =
     (if seg = [] \<or> seg = ''.'' then normalizeSegments allowAboveRoot res segs
      else if seg = ''..'' then
        (if res \<noteq> [] \<and> last res \<noteq> ''..''
         then normalizeSegments allowAboveRoot (butlast res) segs
         else if allowAboveRoot
         then normalizeSegments allowAboveRoot (res @ [''..'']) segs
         else normalizeSegments allowAboveRoot res segs)
      else normalizeSegments allowAboveRoot (res @ [seg]) segs)"

definition normalizeString :: "string \<Rightarrow> bool \<Rightarrow> string" where
  "normalizeString path allowAboveRoot =
     joinWith ''/'' (normalizeSegments allowAboveRoot [] (splitOn (CHR ''/'') path))"

definition normalize :: "string \<Rightarrow> string" where
  "normalize path =
     (if path = [] then ''.''
      else (let isAbsolute = (hd path = CHR ''/'');
                trailingSeparator = (last path = CHR ''/'');
                p = normalizeString path (\<not> isAbsolute)
            in if p = [] then
                 (if isAbsolute then ''/'' else if trailingSeparator then ''./'' else ''.'')
               else (let p = (if trailingSeparator then p @ ''/'' else p)
                     in if isAbsolute then ''/'' @ p else p)))"

definition pathJoin :: "string list \<Rightarrow> string" where
  "pathJoin args =
     (let joined = joinWith ''/'' (filter (\<lambda>a. a \<noteq> []) args)
      in if joined = [] then ''.'' else normalize joined)"

text \<open>The slug of a file path, the directory of its snippets and the path
  of a snippet's file, as \<open>main\<close> computes them.\<close>

definition fileSlug :: "string \<Rightarrow> string" where
  "fileSlug filePath =
     replaceAllDots (replaceString (replaceString filePath ''.js'' []) ''./'' []) ''-''"

definition snippetDir :: "string \<Rightarrow> string" where
  "snippetDir filePath = pathJoin [''./snippets'', fileSlug filePath]"

definition newFilePath :: "string \<Rightarrow> string \<Rightarrow> string" where
  "newFilePath filePath snippetName = pathJoin [snippetDir filePath, snippetName @ ''.js'']"



section \<open>The view of the scan the properties are stated in\<close>

text \<open>
  How the loop of \<open>collectSnippets\<close> reads a line: the test for a START tag
  comes first, the test for an END tag second, and every other line is
  content.
\<close>

datatype marker = Start string | End string | Plain

definition classify :: "string \<Rightarrow> marker" where
  "classify line =
     (case match line RE_START_SNIPPET of
        Some startMatch \<Rightarrow> Start (matchAt startMatch 1)
      | None \<Rightarrow>
          (case match line RE_END_SNIPPET of
             Some endMatch \<Rightarrow> End (matchAt endMatch 1)
           | None \<Rightarrow> Plain))"

text \<open>
  What holds of the scan after every line: no name is open twice, and every
  open name has an entry of its own in \<open>config.map\<close>.
\<close>

definition scanInvariant :: "scan \<Rightarrow> bool" where
  "scanInvariant st = (distinct (snd st) \<and> set (snd st) \<subseteq> dom (map_of (map' (fst st))))"


text \<open>
  The lines that meet neither of the two conditions under which
  \<open>collectSnippets\<close> throws. \<open>started\<close> are the names of the START tags
  read so far and \<open>opened\<close> the names that are open. A START tag must bring
  a name that no earlier START tag of the file brought and that is no
  property of \<open>Object.prototype\<close> (the test
  \<open>config.map[snippetName] !== undefined\<close>), and an END tag must name an open
  region (the test \<open>inSnippetNames.includes(snippetName)\<close>). Nothing is asked
  at the end of the lines: regions may still be open there.
\<close>

fun wellTagged :: "string list \<Rightarrow> string list \<Rightarrow> string list \<Rightarrow> bool" where
  "wellTagged started opened [] = True"
| "wellTagged started opened (line # lines) =
     (case classify line of
        Start n \<Rightarrow>
          n \<notin> set started \<and> n \<notin> set objectPrototypeKeys \<and>
          wellTagged (n # started) (opened @ [n]) lines
      | End n \<Rightarrow> n \<in> set opened \<and> wellTagged started (remove1 n opened) lines
      | Plain \<Rightarrow> wellTagged started opened lines)"

text \<open>
  What holds of \<open>config.map\<close> after every line: no key stands twice, and
  every region begins with the START line that brought its name.
\<close>

definition regionsInvariant :: "(string \<times> string list) list \<Rightarrow> bool" where
  "regionsInvariant obj =
     (distinct (map fst obj) \<and>
      (\<forall>n ls. map_of obj n = Some ls \<longrightarrow> ls \<noteq> [] \<and> classify (hd ls) = Start n))"

section \<open>The slug as the specification words it\<close>

text \<open>
  The specification describes the slug of a source path as the path with its
  extension stripped and with every path separator and every dot converted to
  a single separator character. This is that description, for a separator
  character \<open>sep\<close>, read at its most favourable to the code: a leading
  \<open>./\<close> is not counted as part of the path.
\<close>

definition stripSuffix :: "string \<Rightarrow> string \<Rightarrow> string" where
  "stripSuffix sfx s =
     (if length sfx \<le> length s \<and> drop (length s - length sfx) s = sfx
      then take (length s - length sfx) s else s)"

definition stripPrefix :: "string \<Rightarrow> string \<Rightarrow> string" where
  "stripPrefix pfx s = (if take (length pfx) s = pfx then drop (length pfx) s else s)"

definition specSlug :: "char \<Rightarrow> string \<Rightarrow> string" where
  "specSlug sep filePath =
     map (\<lambda>c. if c = CHR ''/'' \<or> c = CHR ''.'' then sep else c)
       (stripPrefix ''./'' (stripSuffix ''.js'' filePath))"

section \<open>Objects and arrays\<close>

lemma getProperty_Own: "(getProperty obj k = Own v) = (map_of obj k = Some v)"
  by (simp add: getProperty_def split: option.splits)

lemma getProperty_Undefined:
  "(getProperty obj k = Undefined) = (map_of obj k = None \<and> k \<notin> set objectPrototypeKeys)"
  by (simp add: getProperty_def split: option.splits)

lemma pushLine_Some:
  "map_of obj k = Some v \<Longrightarrow> pushLine obj k line = Inr (AList.update k (v @ [line]) obj)"
  by (simp add: pushLine_def getProperty_def)

lemma pushLine_None: "map_of obj k = None \<Longrightarrow> pushLine obj k line = Inl TypeError"
  by (simp add: pushLine_def getProperty_def)

lemma pushAll_ok:
  "set names \<subseteq> dom (map_of obj) \<Longrightarrow> distinct names \<Longrightarrow>
   \<exists>obj'. pushAll obj names line = Inr obj' \<and>
     (\<forall>k. map_of obj' k =
        (if k \<in> set names then map_option (\<lambda>v. v @ [line]) (map_of obj k) else map_of obj k))"
proof (induction names arbitrary: obj)
  case Nil
  then show ?case by simp
next
  case (Cons n names)
  from Cons.prems obtain v where v: "map_of obj n = Some v" by auto
  let ?o = "AList.update n (v @ [line]) obj"
  have sub: "set names \<subseteq> dom (map_of ?o)"
    using Cons.prems by (auto simp: update_conv')
  from Cons.IH [OF sub] Cons.prems obtain obj' where
    o: "pushAll ?o names line = Inr obj'" and
    m: "\<forall>k. map_of obj' k =
        (if k \<in> set names then map_option (\<lambda>v. v @ [line]) (map_of ?o k) else map_of ?o k)"
    by auto
  have "pushAll obj (n # names) line = Inr obj'"
    using v o by (simp add: pushLine_Some)
  moreover have "\<forall>k. map_of obj' k =
        (if k \<in> set (n # names) then map_option (\<lambda>v. v @ [line]) (map_of obj k) else map_of obj k)"
    using m v Cons.prems by (auto simp: update_conv')
  ultimately show ?case by blast
qed

lemma findIndex_nonneg: "findIndex P xs \<ge> - 1"
  by (induction xs) (auto simp: Let_def)

lemma findIndex_less: "findIndex P xs < int (length xs)"
  by (induction xs) (auto simp: Let_def)

lemma findIndex_neg: "(findIndex P xs < 0) = (\<forall>x\<in>set xs. \<not> P x)"
  using findIndex_nonneg [of P] by (induction xs) (auto simp: Let_def)


lemma spliceOne_nonneg:
  "0 \<le> i \<Longrightarrow> i < int (length xs) \<Longrightarrow> spliceOne xs i = take (nat i) xs @ drop (Suc (nat i)) xs"
proof -
  assume a: "0 \<le> i" "i < int (length xs)"
  then have "nat i < length xs" by linarith
  with a show ?thesis by (simp add: spliceOne_def Let_def min_def)
qed

lemma spliceOne_Cons:
  "0 \<le> i \<Longrightarrow> i < int (length xs) \<Longrightarrow> spliceOne (a # xs) (i + 1) = a # spliceOne xs i"
  by (simp add: spliceOne_nonneg nat_add_distrib)

lemma removeName_remove1:
  "n \<in> set names \<Longrightarrow> removeName n names = remove1 n names"
proof (induction names)
  case Nil
  then show ?case by simp
next
  case (Cons a names)
  show ?case
  proof (cases "a = n")
    case True
    then show ?thesis by (simp add: removeName_def spliceOne_def)
  next
    case False
    with Cons.prems have n: "n \<in> set names" by simp
    then have nn: "0 \<le> findIndex (\<lambda>x. x = n) names"
      using findIndex_neg [of "\<lambda>x. x = n" names] by auto
    have less: "findIndex (\<lambda>x. x = n) names < int (length names)" by (rule findIndex_less)
    have "removeName n (a # names) = spliceOne (a # names) (findIndex (\<lambda>x. x = n) names + 1)"
      using False nn by (simp add: removeName_def Let_def)
    also have "\<dots> = a # spliceOne names (findIndex (\<lambda>x. x = n) names)"
      using nn less by (rule spliceOne_Cons)
    also have "\<dots> = a # remove1 n names"
      using Cons.IH [OF n] by (simp add: removeName_def)
    finally show ?thesis using False by simp
  qed
qed

section \<open>The scan, line by line\<close>

lemma collectLine_Start:
  "classify line = Start n \<Longrightarrow>
   collectLine line (config, names) =
     (if getProperty (map' config) n \<noteq> Undefined then Inl (DuplicateSnippetName n)
      else Inr (config\<lparr>map' := AList.update n [line] (map' config)\<rparr>, names @ [n]))"
  by (auto simp: classify_def collectLine_def Let_def split: option.splits)

lemma update_fresh: "k \<notin> fst ` set al \<Longrightarrow> AList.update k v al = al @ [(k, v)]"
  by (induction al) auto

lemma collectLine_Start_iff:
  assumes "classify line = Start name"
  shows "collectLine line (config, names) =
           (if name \<in> dom (map_of (map' config)) \<or> name \<in> set objectPrototypeKeys
            then Inl (DuplicateSnippetName name)
            else Inr (config\<lparr>map' := map' config @ [(name, [line])]\<rparr>, names @ [name]))"
proof (cases "map_of (map' config) name")
  case None
  then have "name \<notin> fst ` set (map' config)" by (simp add: map_of_eq_None_iff)
  then have "AList.update name [line] (map' config) = map' config @ [(name, [line])]"
    by (rule update_fresh)
  with None show ?thesis
    by (auto simp: collectLine_Start [OF assms] getProperty_def dom_def)
next
  case (Some ls)
  then show ?thesis
    by (auto simp: collectLine_Start [OF assms] getProperty_def dom_def)
qed

lemma collectLine_End:
  "classify line = End n \<Longrightarrow>
   collectLine line (config, names) =
     (if n \<notin> set names then Inl (UnmatchedEndTag n)
      else (case pushLine (map' config) n line of
              Inl e \<Rightarrow> Inl e
            | Inr obj \<Rightarrow> Inr (config\<lparr>map' := obj\<rparr>, removeName n names)))"
  by (auto simp: classify_def collectLine_def Let_def split: option.splits)

lemma collectLine_Plain:
  "classify line = Plain \<Longrightarrow>
   collectLine line (config, names) =
     (if names \<noteq> [] then
        (case pushAll (map' config) names line of
           Inl e \<Rightarrow> Inl e
         | Inr obj \<Rightarrow> Inr (config\<lparr>map' := obj\<rparr>, names))
      else Inr (config, names))"
  by (auto simp: classify_def collectLine_def Let_def split: option.splits)

lemma collectLine_End_ok:
  assumes "classify line = End n" "scanInvariant (config, names)" "n \<in> set names"
  shows "\<exists>ls. map_of (map' config) n = Some ls \<and>
           collectLine line (config, names) =
             Inr (config\<lparr>map' := AList.update n (ls @ [line]) (map' config)\<rparr>, remove1 n names)"
proof -
  from assms(2,3) obtain ls where ls: "map_of (map' config) n = Some ls"
    by (auto simp: scanInvariant_def)
  then show ?thesis
    using assms by (simp add: collectLine_End pushLine_Some removeName_remove1)
qed

lemma collectLine_Plain_ok:
  assumes "classify line = Plain" "scanInvariant (config, names)"
  shows "\<exists>obj. collectLine line (config, names) = Inr (config\<lparr>map' := obj\<rparr>, names) \<and>
           (\<forall>k. map_of obj k =
              (if k \<in> set names then map_option (\<lambda>v. v @ [line]) (map_of (map' config) k)
               else map_of (map' config) k))"
proof (cases "names = []")
  case True
  then show ?thesis using assms(1) by (auto simp: collectLine_Plain intro: exI [of _ "map' config"])
next
  case False
  from assms(2) have "set names \<subseteq> dom (map_of (map' config))" "distinct names"
    by (auto simp: scanInvariant_def)
  from pushAll_ok [OF this, of line] obtain obj where
    "pushAll (map' config) names line = Inr obj"
    "\<forall>k. map_of obj k =
       (if k \<in> set names then map_option (\<lambda>v. v @ [line]) (map_of (map' config) k)
        else map_of (map' config) k)" by blast
  then show ?thesis using False assms(1) by (auto simp: collectLine_Plain)
qed

lemma collectLine_invariant:
  assumes "scanInvariant st" "collectLine line st = Inr st'"
  shows "scanInvariant st'"
proof -
  obtain config names where st: "st = (config, names)" by (cases st)
  show ?thesis
  proof (cases "classify line")
    case (Start n)
    from assms(2) have u: "getProperty (map' config) n = Undefined"
      and st': "st' = (config\<lparr>map' := AList.update n [line] (map' config)\<rparr>, names @ [n])"
      by (auto simp: st collectLine_Start [OF Start] split: if_splits)
    from u have "n \<notin> dom (map_of (map' config))" by (auto simp: getProperty_Undefined)
    with assms(1) show ?thesis
      by (auto simp: st st' scanInvariant_def update_conv')
  next
    case (End n)
    from assms(2) have n: "n \<in> set names"
      by (auto simp: st collectLine_End [OF End] split: if_splits)
    from collectLine_End_ok [OF End assms(1) [unfolded st] n] assms(2)
    obtain ls where "st' = (config\<lparr>map' := AList.update n (ls @ [line]) (map' config)\<rparr>, remove1 n names)"
      by (auto simp: st)
    with assms(1) show ?thesis
      by (auto simp: st scanInvariant_def update_conv' dest: notin_set_remove1)
  next
    case Plain
    from collectLine_Plain_ok [OF Plain assms(1) [unfolded st]] assms(2)
    obtain obj where "st' = (config\<lparr>map' := obj\<rparr>, names)"
      "\<forall>k. map_of obj k =
              (if k \<in> set names then map_option (\<lambda>v. v @ [line]) (map_of (map' config) k)
               else map_of (map' config) k)" by (auto simp: st)
    with assms(1) show ?thesis
      by (auto simp: st scanInvariant_def dom_def subset_iff)
  qed
qed

lemma collectLine_no_TypeError:
  assumes "scanInvariant st"
  shows "collectLine line st \<noteq> Inl TypeError"
proof -
  obtain config names where st: "st = (config, names)" by (cases st)
  show ?thesis
  proof (cases "classify line")
    case (Start n)
    then show ?thesis by (simp add: st collectLine_Start)
  next
    case (End n)
    show ?thesis
    proof (cases "n \<in> set names")
      case True
      from collectLine_End_ok [OF End assms [unfolded st] True] show ?thesis by (auto simp: st)
    next
      case False
      then show ?thesis by (simp add: st collectLine_End [OF End])
    qed
  next
    case Plain
    from collectLine_Plain_ok [OF Plain assms [unfolded st]] show ?thesis by (auto simp: st)
  qed
qed

lemma collectLines_append:
  "collectLines (xs @ ys) st =
     (case collectLines xs st of Inl e \<Rightarrow> Inl e | Inr st' \<Rightarrow> collectLines ys st')"
  by (induction xs arbitrary: st) (auto split: sum.splits)

lemma collectLines_invariant:
  "scanInvariant st \<Longrightarrow> collectLines lines st = Inr st' \<Longrightarrow> scanInvariant st'"
  by (induction lines arbitrary: st) (auto split: sum.splits dest: collectLine_invariant)

lemma collectLines_no_TypeError:
  "scanInvariant st \<Longrightarrow> collectLines lines st \<noteq> Inl TypeError"
proof (induction lines arbitrary: st)
  case Nil
  then show ?case by simp
next
  case (Cons line lines)
  show ?case
  proof (cases "collectLine line st")
    case (Inl e)
    with collectLine_no_TypeError [OF Cons.prems, of line] show ?thesis by simp
  next
    case (Inr st')
    with Cons.IH [OF collectLine_invariant [OF Cons.prems Inr]] show ?thesis by simp
  qed
qed

lemma collectLines_plain_closed:
  "\<forall>l\<in>set ls. classify l = Plain \<Longrightarrow> collectLines ls (config, []) = Inr (config, [])"
  by (induction ls) (simp_all add: collectLine_Plain)


lemma open_region_grows:
  assumes "scanInvariant st" "name \<in> set (snd st)" "map_of (map' (fst st)) name = Some ls"
    and "\<forall>l\<in>set post. classify l \<noteq> End name"
    and "collectLines post st = Inr st'"
  shows "map_of (map' (fst st')) name = Some (ls @ filter (\<lambda>l. classify l = Plain) post) \<and>
         name \<in> set (snd st')"
  using assms
proof (induction post arbitrary: st ls)
  case Nil
  then show ?case by simp
next
  case (Cons line post)
  obtain config names where st: "st = (config, names)" by (cases st)
  from Cons.prems(5) obtain st1 where
    s1: "collectLine line st = Inr st1" and s2: "collectLines post st1 = Inr st'"
    by (auto split: sum.splits)
  have inv1: "scanInvariant st1" using Cons.prems(1) s1 by (rule collectLine_invariant)
  have rest: "\<forall>l\<in>set post. classify l \<noteq> End name" using Cons.prems(4) by simp
  have nm: "name \<in> set names" and ls: "map_of (map' config) name = Some ls"
    using Cons.prems(2,3) by (simp_all add: st)
  show ?case
  proof (cases "classify line")
    case (Start n)
    from s1 have u: "getProperty (map' config) n = Undefined"
      and st1: "st1 = (config\<lparr>map' := AList.update n [line] (map' config)\<rparr>, names @ [n])"
      by (auto simp: st collectLine_Start [OF Start] split: if_splits)
    from u ls have "n \<noteq> name" by (auto simp: getProperty_Undefined)
    then have "map_of (map' (fst st1)) name = Some ls" "name \<in> set (snd st1)"
      using ls nm by (simp_all add: st1 update_conv')
    from Cons.IH [OF inv1 this(2) this(1) rest s2] Start show ?thesis by simp
  next
    case (End n)
    with Cons.prems(4) have ne: "n \<noteq> name" by auto
    from s1 have n: "n \<in> set names"
      by (auto simp: st collectLine_End [OF End] split: if_splits)
    from collectLine_End_ok [OF End Cons.prems(1) [unfolded st] n] s1
    obtain vs where
      st1: "st1 = (config\<lparr>map' := AList.update n (vs @ [line]) (map' config)\<rparr>, remove1 n names)"
      by (auto simp: st)
    have "map_of (map' (fst st1)) name = Some ls" "name \<in> set (snd st1)"
      using ls nm ne by (simp_all add: st1 update_conv')
    from Cons.IH [OF inv1 this(2) this(1) rest s2] End show ?thesis by simp
  next
    case Plain
    from collectLine_Plain_ok [OF Plain Cons.prems(1) [unfolded st]] s1
    obtain obj where st1: "st1 = (config\<lparr>map' := obj\<rparr>, names)" and
      obj: "\<forall>k. map_of obj k =
              (if k \<in> set names then map_option (\<lambda>v. v @ [line]) (map_of (map' config) k)
               else map_of (map' config) k)" by (auto simp: st)
    have "map_of (map' (fst st1)) name = Some (ls @ [line])" "name \<in> set (snd st1)"
      using ls nm obj by (simp_all add: st1)
    from Cons.IH [OF inv1 this(2) this(1) rest s2] Plain show ?thesis by simp
  qed
qed

lemma readSuffix_ok: "\<exists>config'. readSuffix lines config = Inr config' \<and> map' config' = map' config"
proof (cases "find (\<lambda>l. match l RE_SNIPPETS_SUFFIX \<noteq> None) lines")
  case None
  then show ?thesis by (simp add: readSuffix_def)
next
  case (Some l)
  then have "match l RE_SNIPPETS_SUFFIX \<noteq> None" by (auto simp: find_Some_iff)
  with Some show ?thesis by (auto simp: readSuffix_def)
qed

lemma collectSnippetLines_disabled:
  "\<not> list_ex (\<lambda>l. match l RE_SNIPPETS_SEPARATION \<noteq> None) lines \<Longrightarrow>
   collectSnippetLines lines = Inr \<lparr>enabled = False, suffix = DEFAULT_SUFFIX, map' = []\<rparr>"
  by (simp add: collectSnippetLines_def)

lemma collectSnippetLines_enabled:
  assumes "list_ex (\<lambda>l. match l RE_SNIPPETS_SEPARATION \<noteq> None) lines"
  shows "\<exists>config0. map' config0 = [] \<and>
           collectSnippetLines lines =
             (case collectLines lines (config0, []) of Inl e \<Rightarrow> Inl e | Inr st \<Rightarrow> Inr (fst st))"
proof -
  from readSuffix_ok [of lines "\<lparr>enabled = True, suffix = DEFAULT_SUFFIX, map' = []\<rparr>"]
  obtain config0 where
    "readSuffix lines \<lparr>enabled = True, suffix = DEFAULT_SUFFIX, map' = []\<rparr> = Inr config0"
    "map' config0 = []" by auto
  with assms show ?thesis by (auto simp: collectSnippetLines_def)
qed

lemma collectSnippetLines_no_TypeError: "collectSnippetLines lines \<noteq> Inl TypeError"
proof (cases "list_ex (\<lambda>l. match l RE_SNIPPETS_SEPARATION \<noteq> None) lines")
  case False
  then show ?thesis by (simp add: collectSnippetLines_disabled)
next
  case True
  from collectSnippetLines_enabled [OF True] obtain config0 where
    c: "collectSnippetLines lines =
          (case collectLines lines (config0, []) of Inl e \<Rightarrow> Inl e | Inr st \<Rightarrow> Inr (fst st))"
    by blast
  have "scanInvariant (config0, [])" by (simp add: scanInvariant_def)
  from collectLines_no_TypeError [OF this, of lines] show ?thesis
    by (auto simp: c split: sum.splits)
qed


section \<open>Matches and replacement templates\<close>

lemma firstSuccess_Some:
  "firstSuccess ks f = Some r \<Longrightarrow> \<exists>k\<in>set ks. f k = Some r"
  by (induction ks) (auto split: option.splits)

lemma matchHere_groups:
  "matchHere re s = Some (caps, len) \<Longrightarrow> length caps = length (filter nodeCaptures re)"
proof (induction re arbitrary: s caps len)
  case Nil
  then show ?case by simp
next
  case (Cons n ns)
  from Cons.prems obtain k where
    "(case matchHere ns (drop k s) of
        None \<Rightarrow> None
      | Some (caps, len) \<Rightarrow>
          Some (if nodeCaptures n then take k s # caps else caps, k + len)) = Some (caps, len)"
    by (auto dest: firstSuccess_Some)
  then obtain caps' len' where
    m: "matchHere ns (drop k s) = Some (caps', len')" and
    c: "caps = (if nodeCaptures n then take k s # caps' else caps')"
    by (auto split: option.splits)
  from Cons.IH [OF m] c show ?case by simp
qed

lemma execFrom_groups:
  "execFrom re i s = Some m \<Longrightarrow> length (groups m) = length (filter nodeCaptures re)"
proof (induction s arbitrary: i)
  case Nil
  then show ?case by (auto split: option.splits dest: matchHere_groups)
next
  case (Cons c cs)
  then show ?case by (auto split: option.splits dest: matchHere_groups)
qed

lemma start_match_groups:
  "match line RE_START_SNIPPET = Some m \<Longrightarrow> length (groups m) = 1"
  by (auto simp: match_def RE_START_SNIPPET_def lit_def dest: execFrom_groups)

lemma end_match_groups:
  "match line RE_END_SNIPPET = Some m \<Longrightarrow> length (groups m) = 1"
  by (auto simp: match_def RE_END_SNIPPET_def lit_def dest: execFrom_groups)

lemma getSubstitution_plain:
  "CHR ''$'' \<notin> set t \<Longrightarrow> getSubstitution m str pos caps t = t"
  by (induction m str pos caps t rule: getSubstitution.induct) auto

lemma getSubstitution_prefix:
  "CHR ''$'' \<notin> set tag \<Longrightarrow>
   getSubstitution m str pos caps (tag @ rest) = tag @ getSubstitution m str pos caps rest"
proof (induction tag)
  case Nil
  then show ?case by simp
next
  case (Cons c tag)
  then show ?case by (cases "tag @ rest") auto
qed

lemma getSubstitution_group1:
  assumes "CHR ''$'' \<notin> set rest" "rest \<noteq> []"
  shows "getSubstitution m str pos [name] (''$1'' @ rest) = name @ rest"
proof -
  from assms(2) obtain e rest' where r: "rest = e # rest'" by (cases rest) auto
  have "getSubstitution m str pos [name] (''$1'' @ rest) =
        name @ getSubstitution m str pos [name] rest"
    by (simp add: r isDigit_def digitValue_def)
  with assms(1) show ?thesis by (simp add: getSubstitution_plain)
qed

lemma getSubstitution_tag:
  assumes "CHR ''$'' \<notin> set sfx" "CHR ''$'' \<notin> set tag"
  shows "getSubstitution m str pos [name] (tag @ ''$1'' @ sfx @ '']'') = tag @ name @ sfx @ '']''"
proof -
  have "getSubstitution m str pos [name] (''$1'' @ (sfx @ '']'')) = name @ (sfx @ '']'')"
    using assms(1) by (intro getSubstitution_group1) auto
  with assms(2) show ?thesis
    using getSubstitution_prefix [of tag m str pos "[name]" "''$1'' @ sfx @ '']''"] by simp
qed


section \<open>Blank lines, indentation and leading comments\<close>

lemma indent_takeWhile:
  "length l - length (trimLeft l) = length (takeWhile isWhiteSpace l)"
proof -
  have "length (takeWhile isWhiteSpace l) + length (dropWhile isWhiteSpace l) = length l"
    by (metis length_append takeWhile_dropWhile_id)
  then show ?thesis by (simp add: trimLeft_def)
qed

lemma dropWhile_all: "(\<forall>c\<in>set (dropWhile P l). P c) = (\<forall>c\<in>set l. P c)"
proof
  assume a: "\<forall>c\<in>set (dropWhile P l). P c"
  have "dropWhile P l = []"
  proof (cases "dropWhile P l")
    case Nil
    then show ?thesis .
  next
    case (Cons c cs)
    then have "\<not> P c" by (metis hd_dropWhile list.sel(1) list.distinct(1))
    with a Cons show ?thesis by simp
  qed
  then show "\<forall>c\<in>set l. P c" by (simp add: dropWhile_eq_Nil_conv)
next
  assume "\<forall>c\<in>set l. P c"
  then show "\<forall>c\<in>set (dropWhile P l). P c" by (meson set_dropWhileD)
qed

lemma isBlank_iff: "isBlank l = (\<forall>c\<in>set l. isWhiteSpace c)"
  by (simp add: isBlank_def trim_def dropWhile_eq_Nil_conv dropWhile_all)

lemma mathMin_nonempty: "xs \<noteq> [] \<Longrightarrow> mathMin xs = enat (Min (set xs))"
proof (induction xs)
  case Nil
  then show ?case by simp
next
  case (Cons x xs)
  show ?case
  proof (cases "xs = []")
    case True
    then show ?thesis by (simp add: mathMin_def)
  next
    case False
    with Cons.IH have "mathMin xs = enat (Min (set xs))" by simp
    then have "mathMin (x # xs) = min (enat x) (enat (Min (set xs)))"
      by (simp add: mathMin_def)
    with False show ?thesis by (simp add: min_def)
  qed
qed

lemma mathMin_empty: "mathMin [] = \<infinity>"
  by (simp add: mathMin_def)

lemma adjustIndentation_blank:
  "\<forall>l\<in>set lines. isBlank l \<Longrightarrow> adjustIndentation lines = map (\<lambda>l. []) lines"
  by (simp add: adjustIndentation_def Let_def)

lemma adjustIndentation_nonblank:
  assumes "\<exists>l\<in>set lines. \<not> isBlank l"
  shows "adjustIndentation lines =
           map (\<lambda>l. if isBlank l then []
                    else drop (Min ((\<lambda>l. length (takeWhile isWhiteSpace l)) `
                                      {l \<in> set lines. \<not> isBlank l})) l) lines"
proof -
  let ?nb = "filter (\<lambda>l. \<not> isBlank l) lines"
  let ?sizes = "map (\<lambda>l. length l - length (trimLeft l)) ?nb"
  from assms have ne: "?sizes \<noteq> []" by (auto simp: filter_empty_conv)
  have s: "set ?sizes = (\<lambda>l. length (takeWhile isWhiteSpace l)) ` {l \<in> set lines. \<not> isBlank l}"
    by (auto simp: indent_takeWhile)
  from mathMin_nonempty [OF ne] s
  have "mathMin ?sizes =
          enat (Min ((\<lambda>l. length (takeWhile isWhiteSpace l)) ` {l \<in> set lines. \<not> isBlank l}))"
    by simp
  then show ?thesis by (simp add: adjustIndentation_def Let_def substr_def)
qed

lemma findIndex_none: "\<forall>c\<in>set xs. \<not> P c \<Longrightarrow> findIndex P xs = - 1"
  by (induction xs) (auto simp: Let_def)

lemma findIndex_first:
  "\<forall>c\<in>set pre. \<not> P c \<Longrightarrow> P l \<Longrightarrow> findIndex P (pre @ l # post) = int (length pre)"
  by (induction pre) (auto simp: Let_def)

lemma arrayGet_middle: "arrayGet (pre @ l # post) (int (length pre)) = Some l"
  by (simp add: arrayGet_def)

lemma spliceOne_middle: "spliceOne (pre @ l # post) (int (length pre)) = pre @ post"
  by (simp add: spliceOne_def Let_def min_def)

lemma removeFirstLineAfterComments_total:
  "\<exists>out. removeFirstLineAfterComments lines = Inr out"
proof (cases "findIndex (\<lambda>l. \<not> startsWith l ''//'') lines \<ge> 0")
  case True
  with findIndex_less [of "\<lambda>l. \<not> startsWith l ''//''" lines]
  obtain l where "arrayGet lines (findIndex (\<lambda>l. \<not> startsWith l ''//'') lines) = Some l"
    by (auto simp: arrayGet_def)
  with True show ?thesis by (simp add: removeFirstLineAfterComments_def Let_def)
next
  case False
  then show ?thesis by (simp add: removeFirstLineAfterComments_def Let_def)
qed

lemma removeFirstLineAfterComments_comments:
  "\<forall>l\<in>set lines. startsWith l ''//'' \<Longrightarrow> removeFirstLineAfterComments lines = Inr lines"
  using findIndex_none [of lines "\<lambda>l. \<not> startsWith l ''//''"]
  by (simp add: removeFirstLineAfterComments_def Let_def)

lemma removeFirstLineAfterComments_first:
  assumes "\<forall>c\<in>set pre. startsWith c ''//''" "\<not> startsWith l ''//''"
  shows "removeFirstLineAfterComments (pre @ l # post) =
           Inr (if isBlank l then pre @ post else pre @ l # post)"
proof -
  have "findIndex (\<lambda>l. \<not> startsWith l ''//'') (pre @ l # post) = int (length pre)"
    using assms by (intro findIndex_first) auto
  then show ?thesis
    by (simp add: removeFirstLineAfterComments_def Let_def arrayGet_middle spliceOne_middle)
qed

lemma execFrom_span:
  "execFrom re i s = Some m \<Longrightarrow>
   \<exists>j len. index m = i + j \<and> j \<le> length s \<and> matched m = take len (drop j s)"
proof (induction s arbitrary: i)
  case Nil
  then show ?case by (auto split: option.splits)
next
  case (Cons c cs)
  show ?case
  proof (cases "matchHere re (c # cs)")
    case None
    with Cons.prems have "execFrom re (Suc i) cs = Some m" by simp
    from Cons.IH [OF this] obtain j len where
      "index m = Suc i + j" "j \<le> length cs" "matched m = take len (drop j cs)" by blast
    then have "index m = i + Suc j \<and> Suc j \<le> length (c # cs) \<and>
               matched m = take len (drop (Suc j) (c # cs))" by simp
    then show ?thesis by blast
  next
    case (Some r)
    obtain caps len where r: "r = (caps, len)" by (cases r)
    with Some Cons.prems have "index m = i + 0 \<and> 0 \<le> length (c # cs) \<and>
        matched m = take len (drop 0 (c # cs))" by auto
    then show ?thesis by blast
  qed
qed

lemma match_span:
  assumes "match line re = Some m"
  shows "line = take (index m) line @ matched m @ drop (index m + length (matched m)) line"
proof -
  from execFrom_span [OF assms [unfolded match_def]] obtain len where
    m: "matched m = take len (drop (index m) line)" by auto
  have "drop (index m + length (matched m)) line = drop (length (matched m)) (drop (index m) line)"
    by (simp add: add.commute)
  moreover have "matched m = take (length (matched m)) (drop (index m) line)"
    using m by (metis append_eq_conv_conj append_take_drop_id)
  ultimately have "matched m @ drop (index m + length (matched m)) line = drop (index m) line"
    by (metis append_take_drop_id)
  then show ?thesis by simp
qed

lemma firstSuccess_Once:
  "firstSuccess (candidates Once n) f = Some r \<Longrightarrow> 1 \<le> n \<and> f 1 = Some r"
  by (auto split: if_splits option.splits)

lemma matchHere_lit:
  "matchHere (lit p @ rest) t = Some r \<Longrightarrow> take (length p) t = p"
proof (induction p arbitrary: t r)
  case Nil
  then show ?case by simp
next
  case (Cons c p)
  let ?run = "length (takeWhile (classMatches (CLit c)) t)"
  from Cons.prems have mh: "matchHere (Atom (CLit c) Once # (lit p @ rest)) t = Some r"
    by (simp add: lit_def)
  note fs = mh [unfolded matchHere.simps nodeQuant.simps nodeClass.simps]
  from firstSuccess_Once [OF fs] obtain r' where
    run: "1 \<le> ?run" and m: "matchHere (lit p @ rest) (drop 1 t) = Some r'"
    by (auto split: option.splits)
  from run obtain t' where t: "t = c # t'" by (cases t) (auto split: if_splits)
  from Cons.IH [OF m] t show ?case by simp
qed

lemma execFrom_somewhere:
  "execFrom re i s = Some m \<Longrightarrow> \<exists>j r. matchHere re (drop j s) = Some r"
proof (induction s arbitrary: i)
  case Nil
  then show ?case by (auto split: option.splits)
next
  case (Cons c cs)
  show ?case
  proof (cases "matchHere re (c # cs)")
    case None
    with Cons.prems have "execFrom re (Suc i) cs = Some m" by simp
    from Cons.IH [OF this] obtain j r where "matchHere re (drop j cs) = Some r" by blast
    then have "matchHere re (drop (Suc j) (c # cs)) = Some r" by simp
    then show ?thesis by blast
  next
    case (Some r)
    then have "matchHere re (drop 0 (c # cs)) = Some r" by simp
    then show ?thesis by blast
  qed
qed

lemma indexOf_occurs:
  "p \<noteq> [] \<Longrightarrow> take (length p) (drop j s) = p \<Longrightarrow> indexOf s p \<noteq> None"
proof (induction s arbitrary: j)
  case Nil
  then show ?case by simp
next
  case (Cons c cs)
  show ?case
  proof (cases j)
    case 0
    with Cons.prems show ?thesis by simp
  next
    case (Suc k)
    with Cons.prems have "take (length p) (drop k cs) = p" by simp
    from Cons.IH [OF Cons.prems(1) this] show ?thesis by auto
  qed
qed

lemma require_needs_const:
  assumes "indexOf line ''const {'' = None"
  shows "match line RE_REQUIRE = None"
proof (rule ccontr)
  assume "match line RE_REQUIRE \<noteq> None"
  then obtain m where "execFrom RE_REQUIRE 0 line = Some m" by (auto simp: match_def)
  from execFrom_somewhere [OF this] obtain j r where
    "matchHere (lit ''const {'' @ ([Group CDot PlusLazy] @ lit ''} = require('' @
        [Group CDot PlusLazy] @ lit '')'')) (drop j line) = Some r"
    by (auto simp: RE_REQUIRE_def)
  from matchHere_lit [OF this] have "take (length ''const {'') (drop j line) = ''const {''" .
  from indexOf_occurs [OF _ this] assms show False by simp
qed

section \<open>Paths\<close>

lemma splitOn_nonempty: "splitOn d s \<noteq> []"
  by (induction s) (auto split: list.splits)

lemma joinWith_splitOn: "joinWith [d] (splitOn d s) = s"
proof (induction s)
  case Nil
  then show ?case by simp
next
  case (Cons c cs)
  obtain l ls where sp: "splitOn d cs = l # ls"
    using splitOn_nonempty [of d cs] by (cases "splitOn d cs") auto
  with Cons.IH show ?case by (cases ls) auto
qed

lemma splitOn_append:
  "splitOn d (a @ d # b) = splitOn d a @ splitOn d b"
proof (induction a)
  case Nil
  then show ?case by simp
next
  case (Cons c a)
  obtain l ls where sp: "splitOn d a = l # ls"
    using splitOn_nonempty [of d a] by (cases "splitOn d a") auto
  with Cons.IH show ?case by simp
qed

lemma splitOn_single: "d \<notin> set s \<Longrightarrow> splitOn d s = [s]"
  by (induction s) auto

lemma splitOn_map:
  assumes "f d = d" "\<And>c. f c = d \<Longrightarrow> c = d"
  shows "splitOn d (map f s) = map (map f) (splitOn d s)"
proof (induction s)
  case Nil
  then show ?case by simp
next
  case (Cons c cs)
  obtain l ls where sp: "splitOn d cs = l # ls"
    using splitOn_nonempty [of d cs] by (cases "splitOn d cs") auto
  show ?case
  proof (cases "c = d")
    case True
    with Cons.IH assms(1) show ?thesis by simp
  next
    case False
    with assms(2) have "f c \<noteq> d" by auto
    with False Cons.IH sp show ?thesis by simp
  qed
qed

lemma normalizeSegments_plain:
  "\<forall>seg\<in>set segs. seg \<noteq> [] \<and> seg \<noteq> ''.'' \<and> seg \<noteq> ''..'' \<Longrightarrow>
   normalizeSegments allow res segs = res @ segs"
  by (induction segs arbitrary: res) auto

lemma no_empty_segment:
  assumes "[] \<notin> set (splitOn d s)"
  shows "s \<noteq> [] \<and> hd s \<noteq> d \<and> last s \<noteq> d"
proof (intro conjI)
  show "s \<noteq> []" using assms by auto
  show "hd s \<noteq> d"
  proof
    assume "hd s = d"
    with \<open>s \<noteq> []\<close> have "s = [] @ d # tl s" by (cases s) auto
    then have "splitOn d s = splitOn d [] @ splitOn d (tl s)" by (metis splitOn_append)
    with assms show False by simp
  qed
  show "last s \<noteq> d"
  proof
    assume "last s = d"
    with \<open>s \<noteq> []\<close> have "s = butlast s @ d # []" by (metis append_butlast_last_id)
    then have "splitOn d s = splitOn d (butlast s) @ splitOn d []" by (metis splitOn_append)
    with assms show False by simp
  qed
qed

lemma normalize_plain:
  assumes "\<forall>seg\<in>set (splitOn (CHR ''/'') p). seg \<noteq> [] \<and> seg \<noteq> ''.'' \<and> seg \<noteq> ''..''"
  shows "normalize p = p"
proof -
  from assms have "[] \<notin> set (splitOn (CHR ''/'') p)" by auto
  from no_empty_segment [OF this] have
    p: "p \<noteq> []" "hd p \<noteq> CHR ''/''" "last p \<noteq> CHR ''/''" by auto
  have "normalizeString p True = p"
    using assms joinWith_splitOn [of "CHR ''/''" p]
    by (simp add: normalizeString_def normalizeSegments_plain)
  with p show ?thesis by (simp add: normalize_def Let_def)
qed

lemma normalize_dot_slash:
  assumes "\<forall>seg\<in>set (splitOn (CHR ''/'') p). seg \<noteq> [] \<and> seg \<noteq> ''.'' \<and> seg \<noteq> ''..''"
  shows "normalize (''./'' @ p) = p"
proof -
  from assms have "[] \<notin> set (splitOn (CHR ''/'') p)" by auto
  from no_empty_segment [OF this] have
    p: "p \<noteq> []" "hd p \<noteq> CHR ''/''" "last p \<noteq> CHR ''/''" by auto
  have "splitOn (CHR ''/'') (''./'' @ p) = ''.'' # splitOn (CHR ''/'') p"
    using splitOn_append [of "CHR ''/''" "''.''" p] by simp
  then have "normalizeString (''./'' @ p) True = p"
    using assms joinWith_splitOn [of "CHR ''/''" p]
    by (simp add: normalizeString_def normalizeSegments_plain)
  with p show ?thesis by (simp add: normalize_def Let_def)
qed

lemma replaceAllDots_map:
  "replaceAllDots s ''-'' = map (\<lambda>c. if c = CHR ''.'' then CHR ''-'' else c) s"
  by (induction s) (auto simp: replaceAllDots_def)

lemma indexOf_prefix: "indexOf (p @ s) p = Some 0"
proof (cases "p @ s")
  case Nil
  then show ?thesis by simp
next
  case (Cons a list)
  have "take (length p) (p @ s) = p" by simp
  then have "take (length p) (a # list) = p" by (simp only: Cons)
  then have "indexOf (a # list) p = Some 0" by simp
  then show ?thesis by (simp only: Cons)
qed

lemma fileSlug_relative:
  assumes "indexOf (''./'' @ rel @ ''.js'') ''.js'' = Some (length rel + 2)"
  shows "fileSlug (''./'' @ rel @ ''.js'') =
           map (\<lambda>c. if c = CHR ''.'' then CHR ''-'' else c) rel"
proof -
  have "replaceString (''./'' @ rel @ ''.js'') ''.js'' [] = ''./'' @ rel"
    using assms by (simp add: replaceString_def)
  moreover have "replaceString (''./'' @ rel) ''./'' [] = rel"
    using indexOf_prefix [of "''./''" rel] by (simp add: replaceString_def)
  ultimately show ?thesis by (simp add: fileSlug_def replaceAllDots_map)
qed

section \<open>Files that meet neither error condition\<close>

lemma collectLines_wellTagged:
  assumes "scanInvariant (config, names)" "set started = dom (map_of (map' config))"
  shows "(\<exists>st'. collectLines lines (config, names) = Inr st') = wellTagged started names lines"
  using assms
proof (induction lines arbitrary: config names started)
  case Nil
  then show ?case by simp
next
  case (Cons line lines)
  show ?case
  proof (cases "classify line")
    case (Start n)
    show ?thesis
    proof (cases "n \<in> set started \<or> n \<in> set objectPrototypeKeys")
      case True
      then have "getProperty (map' config) n \<noteq> Undefined"
        using Cons.prems(2) by (auto simp: getProperty_Undefined)
      then have "collectLine line (config, names) = Inl (DuplicateSnippetName n)"
        by (simp add: collectLine_Start [OF Start])
      with True Start show ?thesis by auto
    next
      case False
      then have u: "getProperty (map' config) n = Undefined"
        using Cons.prems(2) by (auto simp: getProperty_Undefined)
      let ?st = "(config\<lparr>map' := AList.update n [line] (map' config)\<rparr>, names @ [n])"
      have s: "collectLine line (config, names) = Inr ?st"
        using u by (simp add: collectLine_Start [OF Start])
      have inv: "scanInvariant ?st" using Cons.prems(1) s by (rule collectLine_invariant)
      have d: "set (n # started) = dom (map_of (map' (config\<lparr>map' := AList.update n [line] (map' config)\<rparr>)))"
        using Cons.prems(2) by (simp add: update_conv')
      from Cons.IH [OF inv d, of ] s False Start show ?thesis by simp
    qed
  next
    case (End n)
    show ?thesis
    proof (cases "n \<in> set names")
      case False
      then have "collectLine line (config, names) = Inl (UnmatchedEndTag n)"
        by (simp add: collectLine_End [OF End])
      with False End show ?thesis by auto
    next
      case True
      from collectLine_End_ok [OF End Cons.prems(1) True] obtain ls where
        ls: "map_of (map' config) n = Some ls" and
        s: "collectLine line (config, names) =
             Inr (config\<lparr>map' := AList.update n (ls @ [line]) (map' config)\<rparr>, remove1 n names)"
        by blast
      let ?c = "config\<lparr>map' := AList.update n (ls @ [line]) (map' config)\<rparr>"
      have inv: "scanInvariant (?c, remove1 n names)"
        using Cons.prems(1) s by (rule collectLine_invariant)
      have d: "set started = dom (map_of (map' ?c))"
        using Cons.prems(2) ls by (auto simp: update_conv')
      from Cons.IH [OF inv d] s True End show ?thesis by simp
    qed
  next
    case Plain
    from collectLine_Plain_ok [OF Plain Cons.prems(1)] obtain obj where
      s: "collectLine line (config, names) = Inr (config\<lparr>map' := obj\<rparr>, names)" and
      obj: "\<forall>k. map_of obj k =
              (if k \<in> set names then map_option (\<lambda>v. v @ [line]) (map_of (map' config) k)
               else map_of (map' config) k)" by blast
    have inv: "scanInvariant (config\<lparr>map' := obj\<rparr>, names)"
      using Cons.prems(1) s by (rule collectLine_invariant)
    have "dom (map_of obj) = dom (map_of (map' config))"
      using obj by (auto simp: dom_def)
    then have d: "set started = dom (map_of (map' (config\<lparr>map' := obj\<rparr>)))"
      using Cons.prems(2) by simp
    from Cons.IH [OF inv d] s Plain show ?thesis by simp
  qed
qed

lemma collectSnippetLines_wellTagged:
  assumes "list_ex (\<lambda>l. match l RE_SNIPPETS_SEPARATION \<noteq> None) lines"
  shows "(\<exists>config. collectSnippetLines lines = Inr config) = wellTagged [] [] lines"
proof -
  from collectSnippetLines_enabled [OF assms] obtain config0 where
    m: "map' config0 = []" and
    c: "collectSnippetLines lines =
          (case collectLines lines (config0, []) of Inl e \<Rightarrow> Inl e | Inr st \<Rightarrow> Inr (fst st))"
    by blast
  have inv: "scanInvariant (config0, [])" by (simp add: scanInvariant_def)
  have d: "set [] = dom (map_of (map' config0))" by (simp add: m)
  from collectLines_wellTagged [OF inv d, of lines] show ?thesis
    by (auto simp: c split: sum.splits)
qed

lemma collectSnippetLines_wellTagged_ok:
  assumes "wellTagged [] [] lines"
  shows "\<exists>config. collectSnippetLines lines = Inr config"
proof (cases "list_ex (\<lambda>l. match l RE_SNIPPETS_SEPARATION \<noteq> None) lines")
  case True
  with assms show ?thesis by (simp add: collectSnippetLines_wellTagged)
next
  case False
  then show ?thesis by (simp add: collectSnippetLines_disabled)
qed

lemma dangling_content:
  assumes "collectSnippetLines (pre @ startLine # post) = Inr config"
    and en: "list_ex (\<lambda>l. match l RE_SNIPPETS_SEPARATION \<noteq> None) (pre @ startLine # post)"
    and "classify startLine = Start name" "\<forall>l\<in>set post. classify l \<noteq> End name"
  shows "map_of (map' config) name = Some (startLine # filter (\<lambda>l. classify l = Plain) post)"
proof -
  let ?lines = "pre @ startLine # post"
  from collectSnippetLines_enabled [OF en] obtain config0 where
    c: "collectSnippetLines ?lines =
          (case collectLines ?lines (config0, []) of Inl e \<Rightarrow> Inl e | Inr st \<Rightarrow> Inr (fst st))"
    by blast
  with assms(1) obtain names where run: "collectLines ?lines (config0, []) = Inr (config, names)"
    by (auto split: sum.splits)
  then obtain st1 st2 where
    p1: "collectLines pre (config0, []) = Inr st1" and
    p2: "collectLine startLine st1 = Inr st2" and
    p3: "collectLines post st2 = Inr (config, names)"
    by (auto simp: collectLines_append split: sum.splits)
  have inv1: "scanInvariant st1"
    using collectLines_invariant [OF _ p1] by (simp add: scanInvariant_def)
  have inv2: "scanInvariant st2" using inv1 p2 by (rule collectLine_invariant)
  obtain c1 n1 where st1: "st1 = (c1, n1)" by (cases st1)
  from p2 have st2: "st2 = (c1\<lparr>map' := AList.update name [startLine] (map' c1)\<rparr>, n1 @ [name])"
    by (auto simp: st1 collectLine_Start [OF assms(3)] split: if_splits)
  have "name \<in> set (snd st2)" "map_of (map' (fst st2)) name = Some [startLine]"
    by (simp_all add: st2 update_conv')
  from open_region_grows [OF inv2 this assms(4) p3] show ?thesis by simp
qed

section \<open>The first line of a region\<close>

lemma execFrom_lit:
  "execFrom (lit p @ rest) i s = Some m \<Longrightarrow> \<exists>j. take (length p) (drop j s) = p"
proof -
  assume "execFrom (lit p @ rest) i s = Some m"
  from execFrom_somewhere [OF this] obtain j r where
    "matchHere (lit p @ rest) (drop j s) = Some r" by blast
  from matchHere_lit [OF this] show ?thesis by blast
qed

lemma holds_bracket:
  assumes "take (length (CHR ''['' # p)) (drop j s) = CHR ''['' # p"
  shows "CHR ''['' \<in> set s"
proof -
  have "CHR ''['' \<in> set (take (length (CHR ''['' # p)) (drop j s))"
    by (simp only: assms) simp
  then show ?thesis by (meson in_set_dropD in_set_takeD)
qed

lemma not_blank_bracket: "CHR ''['' \<in> set s \<Longrightarrow> \<not> isBlank s"
proof -
  have "\<not> isWhiteSpace CHR ''[''" by (simp add: isWhiteSpace_def)
  then show "CHR ''['' \<in> set s \<Longrightarrow> \<not> isBlank s" by (auto simp: isBlank_iff)
qed

lemma start_not_blank:
  assumes "match l RE_START_SNIPPET \<noteq> None"
  shows "\<not> isBlank l"
proof -
  from assms obtain m where
    "execFrom (lit ''[START'' @ ([Atom CSpace Plus, Group CName Plus, Atom CSpace Star] @ lit '']'')) 0 l
       = Some m"
    by (auto simp: match_def RE_START_SNIPPET_def)
  from execFrom_lit [OF this] obtain j where
    "take (length ''[START'') (drop j l) = ''[START''" by blast
  then have "CHR ''['' \<in> set l" by (intro holds_bracket [of "''START''" j l]) simp
  then show ?thesis by (rule not_blank_bracket)
qed

lemma replace_holds:
  assumes "match l re = Some m"
  shows "set (getSubstitution (matched m) l (index m) (groups m) template) \<subseteq>
         set (replace l re template)"
  using assms by (auto simp: replace_def)

lemma getSubstitution_first:
  "c \<noteq> CHR ''$'' \<Longrightarrow> c \<in> set (getSubstitution m str pos caps (c # rest))"
  by (cases rest) auto

lemma not_blank_holds: "c \<in> set s \<Longrightarrow> \<not> isWhiteSpace c \<Longrightarrow> \<not> isBlank s"
  by (auto simp: isBlank_iff)

lemma require_step_not_blank:
  assumes "\<not> isBlank l"
  shows "\<not> isBlank (if match l RE_REQUIRE \<noteq> None
                     then replace l RE_REQUIRE ''import {$1} from $2'' else l)"
proof (cases "match l RE_REQUIRE")
  case None
  with assms show ?thesis by simp
next
  case (Some m)
  have "CHR ''i'' \<in> set (getSubstitution (matched m) l (index m) (groups m)
                          (CHR ''i'' # ''mport {$1} from $2''))"
    by (rule getSubstitution_first) simp
  with replace_holds [OF Some, of "''import {$1} from $2''"]
  have "CHR ''i'' \<in> set (replace l RE_REQUIRE ''import {$1} from $2'')" by auto
  moreover have "\<not> isWhiteSpace CHR ''i''" by (simp add: isWhiteSpace_def)
  ultimately have "\<not> isBlank (replace l RE_REQUIRE ''import {$1} from $2'')"
    by (rule not_blank_holds)
  with Some show ?thesis by simp
qed

lemma tag_replace_not_blank:
  assumes "match l re = Some m"
  shows "\<not> isBlank (replace l re (CHR ''['' # rest))"
proof -
  have "CHR ''['' \<in> set (getSubstitution (matched m) l (index m) (groups m) (CHR ''['' # rest))"
    by (rule getSubstitution_first) simp
  with replace_holds [OF assms, of "CHR ''['' # rest"]
  have "CHR ''['' \<in> set (replace l re (CHR ''['' # rest))" by auto
  then show ?thesis by (rule not_blank_bracket)
qed

lemma suffix_step_not_blank:
  assumes "\<not> isBlank l"
  shows "\<not> isBlank (if match l RE_START_SNIPPET \<noteq> None
                     then replace l RE_START_SNIPPET (''[START $1'' @ sfx @ '']'')
                     else if match l RE_END_SNIPPET \<noteq> None
                     then replace l RE_END_SNIPPET (''[END $1'' @ sfx @ '']'')
                     else l)"
proof (cases "match l RE_START_SNIPPET")
  case (Some m)
  from tag_replace_not_blank [OF Some, of "''START $1'' @ sfx @ '']''"] Some
  show ?thesis by simp
next
  case None
  show ?thesis
  proof (cases "match l RE_END_SNIPPET")
    case (Some m)
    from tag_replace_not_blank [OF Some, of "''END $1'' @ sfx @ '']''"] Some None
    show ?thesis by simp
  next
    case n: None
    with None assms show ?thesis by simp
  qed
qed

lemma drop_indent:
  "m \<le> length (takeWhile P l) \<Longrightarrow> drop m l = drop m (takeWhile P l) @ dropWhile P l"
proof -
  assume a: "m \<le> length (takeWhile P l)"
  have "drop m l = drop m (takeWhile P l @ dropWhile P l)" by simp
  also have "\<dots> = drop m (takeWhile P l) @ dropWhile P l"
    using a by (simp del: takeWhile_dropWhile_id)
  finally show ?thesis .
qed

lemma drop_indent_not_blank:
  assumes "\<not> isBlank l" "m \<le> length (takeWhile isWhiteSpace l)"
  shows "\<not> isBlank (drop m l)"
proof -
  from assms(1) have "\<not> (\<forall>c\<in>set (dropWhile isWhiteSpace l). isWhiteSpace c)"
    by (simp add: isBlank_iff dropWhile_all)
  then show ?thesis
    by (auto simp: isBlank_iff drop_indent [OF assms(2)])
qed

lemma adjustIndentation_first_not_blank:
  assumes "\<not> isBlank l"
  shows "\<exists>l' ls'. adjustIndentation (l # ls) = l' # ls' \<and> \<not> isBlank l'"
proof -
  let ?ind = "\<lambda>l. length (takeWhile isWhiteSpace l)"
  let ?S = "?ind ` {x \<in> set (l # ls). \<not> isBlank x}"
  from assms have ex: "\<exists>x\<in>set (l # ls). \<not> isBlank x" by simp
  have "Min ?S \<le> ?ind l" using assms by (intro Min_le) auto
  from drop_indent_not_blank [OF assms this] have "\<not> isBlank (drop (Min ?S) l)" .
  with assms show ?thesis
    by (simp add: adjustIndentation_nonblank [OF ex])
qed

lemma region_first_line_not_blank:
  assumes "match first RE_START_SNIPPET \<noteq> None"
  shows "\<exists>l' ls'. adjustIndentation
                     (addSuffixToSnippetNames (replaceRequireWithImport (first # rest)) sfx) =
                   l' # ls' \<and> \<not> isBlank l'"
proof -
  define f1 where "f1 = (\<lambda>line. if match line RE_REQUIRE \<noteq> None
                                then replace line RE_REQUIRE ''import {$1} from $2''
                                else line)"
  define f2 where "f2 = (\<lambda>line. if match line RE_START_SNIPPET \<noteq> None
                     then replace line RE_START_SNIPPET (''[START $1'' @ sfx @ '']'')
                     else if match line RE_END_SNIPPET \<noteq> None
                     then replace line RE_END_SNIPPET (''[END $1'' @ sfx @ '']'')
                     else line)"
  have "\<not> isBlank first" using assms by (rule start_not_blank)
  then have "\<not> isBlank (f1 first)" unfolding f1_def by (rule require_step_not_blank)
  then have nb: "\<not> isBlank (f2 (f1 first))" unfolding f2_def by (rule suffix_step_not_blank)
  have "addSuffixToSnippetNames (replaceRequireWithImport (first # rest)) sfx =
        f2 (f1 first) # map f2 (map f1 rest)"
    by (simp only: replaceRequireWithImport_def addSuffixToSnippetNames_def f1_def f2_def
        list.map)
  with adjustIndentation_first_not_blank [OF nb, of "map f2 (map f1 rest)"]
  show ?thesis by simp
qed

lemma pushAll_keys:
  "pushAll obj names line = Inr obj' \<Longrightarrow> map fst obj' = map fst obj"
proof (induction names arbitrary: obj)
  case Nil
  then show ?case by simp
next
  case (Cons n names)
  from Cons.prems obtain obj1 where
    p: "pushLine obj n line = Inr obj1" and r: "pushAll obj1 names line = Inr obj'"
    by (auto split: sum.splits)
  from p obtain v where v: "map_of obj n = Some v" and
    o: "obj1 = AList.update n (v @ [line]) obj"
    by (auto simp: pushLine_def getProperty_def split: option.splits if_splits)
  from map_of_SomeD [OF v] have "n \<in> fst ` set obj" by force
  then have "map fst obj1 = map fst obj" by (simp add: o update_keys)
  with Cons.IH [OF r] show ?case by simp
qed

lemma collectLine_regions:
  assumes "scanInvariant st" "regionsInvariant (map' (fst st))" "collectLine line st = Inr st'"
  shows "regionsInvariant (map' (fst st'))"
proof -
  obtain config names where st: "st = (config, names)" by (cases st)
  from assms(2) have d: "distinct (map fst (map' config))" and
    r: "\<And>n ls. map_of (map' config) n = Some ls \<Longrightarrow> ls \<noteq> [] \<and> classify (hd ls) = Start n"
    by (auto simp: st regionsInvariant_def)
  show ?thesis
  proof (cases "classify line")
    case (Start n)
    from assms(3) have
      st': "st' = (config\<lparr>map' := AList.update n [line] (map' config)\<rparr>, names @ [n])"
      by (auto simp: st collectLine_Start [OF Start] split: if_splits)
    show ?thesis
      using d r Start by (auto simp: st' regionsInvariant_def distinct_update update_conv')
  next
    case (End n)
    from assms(3) have n: "n \<in> set names"
      by (auto simp: st collectLine_End [OF End] split: if_splits)
    from collectLine_End_ok [OF End assms(1) [unfolded st] n] assms(3)
    obtain ls where ls: "map_of (map' config) n = Some ls" and
      st': "st' = (config\<lparr>map' := AList.update n (ls @ [line]) (map' config)\<rparr>, remove1 n names)"
      by (auto simp: st)
    from r [OF ls] have "ls \<noteq> []" "classify (hd ls) = Start n" by auto
    then show ?thesis
      using d r by (auto simp: st' regionsInvariant_def distinct_update update_conv')
  next
    case Plain
    show ?thesis
    proof (cases "names = []")
      case True
      with assms(3) have "st' = st" by (simp add: st collectLine_Plain [OF Plain])
      with assms(2) show ?thesis by simp
    next
      case False
      from assms(3) False obtain obj where
        p: "pushAll (map' config) names line = Inr obj" and
        st': "st' = (config\<lparr>map' := obj\<rparr>, names)"
        by (auto simp: st collectLine_Plain [OF Plain] split: sum.splits)
      from assms(1) have "set names \<subseteq> dom (map_of (map' config))" "distinct names"
        by (auto simp: st scanInvariant_def)
      from pushAll_ok [OF this, of line] p have
        obj: "\<forall>k. map_of obj k =
              (if k \<in> set names then map_option (\<lambda>v. v @ [line]) (map_of (map' config) k)
               else map_of (map' config) k)" by auto
      from p have "pushAll (map' config) names line = Inr obj" .
      then have k: "map fst obj = map fst (map' config)" by (rule pushAll_keys)
      have "\<And>n ls. map_of obj n = Some ls \<Longrightarrow> ls \<noteq> [] \<and> classify (hd ls) = Start n"
      proof -
        fix n ls assume a: "map_of obj n = Some ls"
        show "ls \<noteq> [] \<and> classify (hd ls) = Start n"
        proof (cases "n \<in> set names")
          case True
          with a obj obtain v where v: "map_of (map' config) n = Some v" "ls = v @ [line]"
            by auto
          from r [OF v(1)] v(2) show ?thesis by simp
        next
          case False
          with a obj have "map_of (map' config) n = Some ls" by simp
          then show ?thesis by (rule r)
        qed
      qed
      with d k show ?thesis by (simp add: st' regionsInvariant_def)
    qed
  qed
qed

lemma collectLines_regions:
  "scanInvariant st \<Longrightarrow> regionsInvariant (map' (fst st)) \<Longrightarrow>
   collectLines lines st = Inr st' \<Longrightarrow> regionsInvariant (map' (fst st'))"
proof (induction lines arbitrary: st)
  case Nil
  then show ?case by simp
next
  case (Cons line lines)
  from Cons.prems(3) obtain st1 where
    s1: "collectLine line st = Inr st1" and s2: "collectLines lines st1 = Inr st'"
    by (auto split: sum.splits)
  have "scanInvariant st1" using Cons.prems(1) s1 by (rule collectLine_invariant)
  moreover have "regionsInvariant (map' (fst st1))"
    using Cons.prems(1,2) s1 by (rule collectLine_regions)
  ultimately show ?case using s2 by (rule Cons.IH)
qed

lemma collected_region_starts_with_tag:
  assumes "collectSnippetLines lines = Inr config" "(name, region) \<in> set (map' config)"
  shows "\<exists>first rest. region = first # rest \<and> classify first = Start name \<and>
           match first RE_START_SNIPPET \<noteq> None"
proof (cases "list_ex (\<lambda>l. match l RE_SNIPPETS_SEPARATION \<noteq> None) lines")
  case False
  from collectSnippetLines_disabled [OF this] assms show ?thesis by auto
next
  case True
  from collectSnippetLines_enabled [OF True] obtain config0 where
    m: "map' config0 = []" and
    c: "collectSnippetLines lines =
          (case collectLines lines (config0, []) of Inl e \<Rightarrow> Inl e | Inr st \<Rightarrow> Inr (fst st))"
    by blast
  with assms(1) obtain names where run: "collectLines lines (config0, []) = Inr (config, names)"
    by (auto split: sum.splits)
  have "scanInvariant (config0, [])" by (simp add: scanInvariant_def)
  moreover have "regionsInvariant (map' (fst (config0, [])))"
    by (simp add: m regionsInvariant_def)
  ultimately have "regionsInvariant (map' (fst (config, names)))"
    using run by (rule collectLines_regions)
  then have d: "distinct (map fst (map' config))" and
    r: "\<And>n ls. map_of (map' config) n = Some ls \<Longrightarrow> ls \<noteq> [] \<and> classify (hd ls) = Start n"
    by (auto simp: regionsInvariant_def)
  from d assms(2) have "map_of (map' config) name = Some region" by simp
  from r [OF this] obtain first rest where
    f: "region = first # rest" "classify first = Start name" by (cases region) auto
  from f(2) have "match first RE_START_SNIPPET \<noteq> None"
    by (auto simp: classify_def split: option.splits)
  with f show ?thesis by blast
qed

section \<open>The collector\<close>

text \<open>
  C1, as the code has it. In an enabled file whose other lines are content
  outside every region, the lines START a, L1, START b, L2, END b, L3, END a
  (L1, L2, L3 content lines, a and b different names that are no property of
  \<open>Object.prototype\<close>) give the mapping with exactly two regions: a holds the
  five lines START a, L1, L2, L3, END a and b holds the three lines START b,
  L2, END b. L1 and L3 are in a only and L2 is in both; the tag lines of the
  inner region b are not lines of the outer region a, since a START or END
  line is pushed to its own region only.
\<close>

theorem nested_regions:
  assumes "classify startA = Start a" "classify startB = Start b"
    and "classify endB = End b" "classify endA = End a"
    and "classify l1 = Plain" "classify l2 = Plain" "classify l3 = Plain"
    and "a \<noteq> b" "a \<notin> set objectPrototypeKeys" "b \<notin> set objectPrototypeKeys"
    and "\<forall>l\<in>set pre \<union> set post. classify l = Plain"
    and "list_ex (\<lambda>l. match l RE_SNIPPETS_SEPARATION \<noteq> None)
           (pre @ [startA, l1, startB, l2, endB, l3, endA] @ post)"
  shows "\<exists>config. collectSnippetLines (pre @ [startA, l1, startB, l2, endB, l3, endA] @ post) =
                    Inr config \<and>
                  map' config = [(a, [startA, l1, l2, l3, endA]), (b, [startB, l2, endB])]"
proof -
  from collectSnippetLines_enabled [OF assms(12)] obtain config0 where
    m: "map' config0 = []" and
    c: "collectSnippetLines (pre @ [startA, l1, startB, l2, endB, l3, endA] @ post) =
          (case collectLines (pre @ [startA, l1, startB, l2, endB, l3, endA] @ post) (config0, []) of
             Inl e \<Rightarrow> Inl e | Inr st \<Rightarrow> Inr (fst st))"
    by blast
  have p: "collectLines pre (config0, []) = Inr (config0, [])"
    using assms(11) by (simp add: collectLines_plain_closed)
  let ?c = "config0\<lparr>map' := [(a, [startA, l1, l2, l3, endA]), (b, [startB, l2, endB])]\<rparr>"
  have s1: "collectLine startA (config0, []) = Inr (config0\<lparr>map' := [(a, [startA])]\<rparr>, [a])"
    using assms(9) by (simp add: collectLine_Start [OF assms(1)] m getProperty_def)
  have s2: "collectLine l1 (config0\<lparr>map' := [(a, [startA])]\<rparr>, [a]) =
            Inr (config0\<lparr>map' := [(a, [startA, l1])]\<rparr>, [a])"
    by (simp add: collectLine_Plain [OF assms(5)] pushLine_def getProperty_def)
  have s3: "collectLine startB (config0\<lparr>map' := [(a, [startA, l1])]\<rparr>, [a]) =
            Inr (config0\<lparr>map' := [(a, [startA, l1]), (b, [startB])]\<rparr>, [a, b])"
    using assms(8,10) by (simp add: collectLine_Start [OF assms(2)] getProperty_def)
  have s4: "collectLine l2 (config0\<lparr>map' := [(a, [startA, l1]), (b, [startB])]\<rparr>, [a, b]) =
            Inr (config0\<lparr>map' := [(a, [startA, l1, l2]), (b, [startB, l2])]\<rparr>, [a, b])"
    using assms(8) by (simp add: collectLine_Plain [OF assms(6)] pushLine_def getProperty_def)
  have s5: "collectLine endB (config0\<lparr>map' := [(a, [startA, l1, l2]), (b, [startB, l2])]\<rparr>, [a, b]) =
            Inr (config0\<lparr>map' := [(a, [startA, l1, l2]), (b, [startB, l2, endB])]\<rparr>, [a])"
    using assms(8)
    by (simp add: collectLine_End [OF assms(3)] pushLine_def getProperty_def removeName_remove1)
  have s6: "collectLine l3 (config0\<lparr>map' := [(a, [startA, l1, l2]), (b, [startB, l2, endB])]\<rparr>, [a]) =
            Inr (config0\<lparr>map' := [(a, [startA, l1, l2, l3]), (b, [startB, l2, endB])]\<rparr>, [a])"
    using assms(8) by (simp add: collectLine_Plain [OF assms(7)] pushLine_def getProperty_def)
  have s7: "collectLine endA (config0\<lparr>map' := [(a, [startA, l1, l2, l3]), (b, [startB, l2, endB])]\<rparr>, [a]) =
            Inr (?c, [])"
    using assms(8)
    by (simp add: collectLine_End [OF assms(4)] pushLine_def getProperty_def removeName_remove1)
  have seven: "collectLines [startA, l1, startB, l2, endB, l3, endA] (config0, []) = Inr (?c, [])"
    by (simp add: s1 s2 s3 s4 s5 s6 s7)
  have q: "collectLines post (?c, []) = Inr (?c, [])"
    using assms(11) by (simp add: collectLines_plain_closed)
  have "collectLines ([startA, l1, startB, l2, endB, l3, endA] @ post) (config0, []) =
        Inr (?c, [])"
    by (simp only: collectLines_append seven q sum.case)
  then have "collectLines (pre @ [startA, l1, startB, l2, endB, l3, endA] @ post) (config0, []) =
        Inr (?c, [])"
    by (simp only: collectLines_append [of pre] p sum.case)
  with c show ?thesis by simp
qed

theorem nested_regions_witness:
  "\<exists>config. collectSnippetLines
              ([''// [SNIPPETS_SEPARATION enabled]''] @
               [''// [START a]'', ''L1'', ''// [START b]'', ''L2'', ''// [END b]'', ''L3'',
                ''// [END a]''] @ []) = Inr config \<and>
            map' config =
              [(''a'', [''// [START a]'', ''L1'', ''L2'', ''L3'', ''// [END a]'']),
               (''b'', [''// [START b]'', ''L2'', ''// [END b]''])]"
proof -
  have h1: "classify ''// [START a]'' = Start ''a''" by code_simp
  have h2: "classify ''// [START b]'' = Start ''b''" by code_simp
  have h3: "classify ''// [END b]'' = End ''b''" by code_simp
  have h4: "classify ''// [END a]'' = End ''a''" by code_simp
  have h5: "classify ''L1'' = Plain" by code_simp
  have h6: "classify ''L2'' = Plain" by code_simp
  have h7: "classify ''L3'' = Plain" by code_simp
  have h8: "''a'' \<noteq> ''b''" by simp
  have h9: "''a'' \<notin> set objectPrototypeKeys" by (simp add: objectPrototypeKeys_def)
  have h10: "''b'' \<notin> set objectPrototypeKeys" by (simp add: objectPrototypeKeys_def)
  have p: "classify ''// [SNIPPETS_SEPARATION enabled]'' = Plain" by code_simp
  have h11: "\<forall>l\<in>set [''// [SNIPPETS_SEPARATION enabled]''] \<union> set []. classify l = Plain"
    using p by simp
  have m: "match ''// [SNIPPETS_SEPARATION enabled]'' RE_SNIPPETS_SEPARATION \<noteq> None"
    by code_simp
  have h12: "list_ex (\<lambda>l. match l RE_SNIPPETS_SEPARATION \<noteq> None)
           ([''// [SNIPPETS_SEPARATION enabled]''] @
            [''// [START a]'', ''L1'', ''// [START b]'', ''L2'', ''// [END b]'', ''L3'',
             ''// [END a]''] @ [])"
    using m by simp
  show ?thesis by (rule nested_regions [OF h1 h2 h3 h4 h5 h6 h7 h8 h9 h10 h11 h12])
qed

text \<open>
  C1 as the specification states it fails: in the file of its example the
  region a has five lines, not the seven that would include the tag lines of
  the inner region b.
\<close>

theorem nested_regions_counterexample:
  "collectSnippetLines
     [''// [SNIPPETS_SEPARATION enabled]'',
      ''// [START a]'', ''L1'', ''// [START b]'', ''L2'', ''// [END b]'', ''L3'', ''// [END a]''] =
   Inr \<lparr>enabled = True, suffix = ''_modular'',
        map' = [(''a'', [''// [START a]'', ''L1'', ''L2'', ''L3'', ''// [END a]'']),
                (''b'', [''// [START b]'', ''L2'', ''// [END b]''])]\<rparr> \<and>
   [''// [START a]'', ''L1'', ''L2'', ''L3'', ''// [END a]''] \<noteq>
   [''// [START a]'', ''L1'', ''// [START b]'', ''L2'', ''// [END b]'', ''L3'', ''// [END a]'']"
  by code_simp

text \<open>
  C3 at the input on which the code departs from it. The file holds one
  START tag, for the name \<open>constructor\<close>; when the scan reaches that line the
  mapping has no key at all, and still \<open>config.map[snippetName] !== undefined\<close>
  holds, because the lookup finds \<open>Object.prototype.constructor\<close>: the scan
  fails with the error for a duplicate name. (For every name that is no
  property of \<open>Object.prototype\<close> the START tag fails exactly when the name
  is a key of the mapping: \<open>collectLine_Start_iff\<close>.)
\<close>

theorem duplicate_error_without_duplicate:
  "collectLine ''// [START constructor]''
     (\<lparr>enabled = True, suffix = DEFAULT_SUFFIX, map' = []\<rparr>, []) =
     Inl (DuplicateSnippetName ''constructor'') \<and>
   collectSnippets
     (joinWith ''\<newline>''
        [''// [SNIPPETS_SEPARATION enabled]'', ''// [START constructor]'',
         ''// [END constructor]'']) =
     Inl (DuplicateSnippetName ''constructor'')"
  by code_simp

text \<open>
  C4. Let the scan have read the lines \<open>pre\<close> without an error, and let the
  next line be an END tag for \<open>name\<close> (and no START tag). If \<open>name\<close> is not
  open, the scan of the file fails with the error for an unmatched END tag,
  whatever follows. If \<open>name\<close> is open, the scan goes on without an error:
  the line is pushed to the region of \<open>name\<close>, every other region is as it
  was, and \<open>name\<close> is no longer open.
\<close>

theorem end_tag_handling:
  assumes "collectLines pre (config0, []) = Inr (config, names)"
    and "classify line = End name"
  shows "(name \<notin> set names \<longrightarrow>
            collectLines (pre @ line # post) (config0, []) = Inl (UnmatchedEndTag name)) \<and>
         (name \<in> set names \<longrightarrow>
            (\<exists>ls. map_of (map' config) name = Some ls \<and>
                  collectLines (pre @ [line]) (config0, []) =
                    Inr (config\<lparr>map' := AList.update name (ls @ [line]) (map' config)\<rparr>,
                         remove1 name names) \<and>
                  name \<notin> set (remove1 name names)))"
proof (intro conjI impI)
  assume "name \<notin> set names"
  then show "collectLines (pre @ line # post) (config0, []) = Inl (UnmatchedEndTag name)"
    using assms by (simp add: collectLines_append collectLine_End)
next
  assume n: "name \<in> set names"
  have inv: "scanInvariant (config, names)"
    using collectLines_invariant [OF _ assms(1)] by (simp add: scanInvariant_def)
  from collectLine_End_ok [OF assms(2) inv n] obtain ls where
    "map_of (map' config) name = Some ls"
    "collectLine line (config, names) =
       Inr (config\<lparr>map' := AList.update name (ls @ [line]) (map' config)\<rparr>, remove1 name names)"
    by blast
  moreover have "name \<notin> set (remove1 name names)"
    using inv by (simp add: scanInvariant_def)
  ultimately show "\<exists>ls. map_of (map' config) name = Some ls \<and>
                  collectLines (pre @ [line]) (config0, []) =
                    Inr (config\<lparr>map' := AList.update name (ls @ [line]) (map' config)\<rparr>,
                         remove1 name names) \<and>
                  name \<notin> set (remove1 name names)"
    using assms(1) by (simp add: collectLines_append)
qed

theorem end_tag_handling_witness:
  "collectLines ([] @ ''// [END a]'' # [''x''])
     (\<lparr>enabled = True, suffix = ''_modular'', map' = []\<rparr>, []) =
     Inl (UnmatchedEndTag ''a'') \<and>
   collectLines ([''// [START a]'', ''x''] @ [''// [END a]''])
     (\<lparr>enabled = True, suffix = ''_modular'', map' = []\<rparr>, []) =
     Inr (\<lparr>enabled = True, suffix = ''_modular'',
           map' = [(''a'', [''// [START a]'', ''x'', ''// [END a]''])]\<rparr>, [])"
proof -
  let ?c0 = "\<lparr>enabled = True, suffix = ''_modular'', map' = []\<rparr>"
  let ?c1 = "\<lparr>enabled = True, suffix = ''_modular'',
               map' = [(''a'', [''// [START a]'', ''x''])]\<rparr>"
  have h0: "collectLines [] (?c0, []) = Inr (?c0, [])" by simp
  have h1: "collectLines [''// [START a]'', ''x''] (?c0, []) = Inr (?c1, [''a''])"
    by code_simp
  have h2: "classify ''// [END a]'' = End ''a''" by code_simp
  from end_tag_handling [OF h0 h2, of "[''x'']"]
  have a: "collectLines ([] @ ''// [END a]'' # [''x'']) (?c0, []) = Inl (UnmatchedEndTag ''a'')"
    by simp
  from end_tag_handling [OF h1 h2]
  have b: "collectLines ([''// [START a]'', ''x''] @ [''// [END a]'']) (?c0, []) =
           Inr (\<lparr>enabled = True, suffix = ''_modular'',
                 map' = [(''a'', [''// [START a]'', ''x'', ''// [END a]''])]\<rparr>, [])"
    by simp
  from a b show ?thesis by (rule conjI)
qed

text \<open>
  C5. A file triggers neither error when every START tag brings a new name
  and every END tag names an open region (\<open>wellTagged\<close>); nothing is asked
  of the regions that are open at the end of the file. Every such file is
  collected, and an enabled file is collected exactly when it is such a file:
  the collector has no error for a region left open. If in such an enabled
  file no line after the START tag of \<open>name\<close> is an END tag for \<open>name\<close>,
  so that the region is still open at the end of the file, the file is
  collected and the mapping holds \<open>name\<close> with the START line followed by
  every content line from there to the end of the file. Stated on the result
  as well: a file whose result is neither of the two errors is collected, and
  a collected enabled file holds every region left open, with those lines.
\<close>

theorem dangling_region_is_kept:
  "(wellTagged [] [] lines \<longrightarrow> (\<exists>config. collectSnippetLines lines = Inr config)) \<and>
   (list_ex (\<lambda>l. match l RE_SNIPPETS_SEPARATION \<noteq> None) lines \<longrightarrow>
      (\<exists>config. collectSnippetLines lines = Inr config) = wellTagged [] [] lines) \<and>
   (list_ex (\<lambda>l. match l RE_SNIPPETS_SEPARATION \<noteq> None) (pre @ startLine # post) \<and>
    wellTagged [] [] (pre @ startLine # post) \<and>
    classify startLine = Start name \<and> (\<forall>l\<in>set post. classify l \<noteq> End name)
      \<longrightarrow> (\<exists>config. collectSnippetLines (pre @ startLine # post) = Inr config \<and>
            map_of (map' config) name =
              Some (startLine # filter (\<lambda>l. classify l = Plain) post))) \<and>
   ((\<forall>n. collectSnippetLines lines \<noteq> Inl (DuplicateSnippetName n)) \<and>
    (\<forall>n. collectSnippetLines lines \<noteq> Inl (UnmatchedEndTag n))
      \<longrightarrow> (\<exists>config. collectSnippetLines lines = Inr config)) \<and>
   (collectSnippetLines (pre @ startLine # post) = Inr config \<and> enabled config \<and>
    classify startLine = Start name \<and> (\<forall>l\<in>set post. classify l \<noteq> End name)
      \<longrightarrow> map_of (map' config) name =
            Some (startLine # filter (\<lambda>l. classify l = Plain) post))"
proof (intro conjI impI)
  show "\<exists>config. collectSnippetLines lines = Inr config" if "wellTagged [] [] lines"
    using that by (rule collectSnippetLines_wellTagged_ok)
  show "(\<exists>config. collectSnippetLines lines = Inr config) = wellTagged [] [] lines"
    if "list_ex (\<lambda>l. match l RE_SNIPPETS_SEPARATION \<noteq> None) lines"
    using that by (rule collectSnippetLines_wellTagged)
  show "\<exists>config. collectSnippetLines (pre @ startLine # post) = Inr config \<and>
            map_of (map' config) name =
              Some (startLine # filter (\<lambda>l. classify l = Plain) post)"
    if a: "list_ex (\<lambda>l. match l RE_SNIPPETS_SEPARATION \<noteq> None) (pre @ startLine # post) \<and>
    wellTagged [] [] (pre @ startLine # post) \<and>
    classify startLine = Start name \<and> (\<forall>l\<in>set post. classify l \<noteq> End name)"
  proof -
    let ?lines = "pre @ startLine # post"
    from a collectSnippetLines_wellTagged_ok [of ?lines] obtain config where
      c: "collectSnippetLines ?lines = Inr config" by blast
    from a have "map_of (map' config) name =
                   Some (startLine # filter (\<lambda>l. classify l = Plain) post)"
      by (intro dangling_content [OF c]) auto
    with c show ?thesis by blast
  qed
  show "\<exists>config. collectSnippetLines lines = Inr config"
    if a: "(\<forall>n. collectSnippetLines lines \<noteq> Inl (DuplicateSnippetName n)) \<and>
    (\<forall>n. collectSnippetLines lines \<noteq> Inl (UnmatchedEndTag n))"
  proof (cases "collectSnippetLines lines")
    case (Inl e)
    with a collectSnippetLines_no_TypeError [of lines] show ?thesis by (cases e) auto
  next
    case (Inr c)
    then show ?thesis by simp
  qed
  show "map_of (map' config) name = Some (startLine # filter (\<lambda>l. classify l = Plain) post)"
    if a: "collectSnippetLines (pre @ startLine # post) = Inr config \<and> enabled config \<and>
    classify startLine = Start name \<and> (\<forall>l\<in>set post. classify l \<noteq> End name)"
  proof -
    have en: "list_ex (\<lambda>l. match l RE_SNIPPETS_SEPARATION \<noteq> None) (pre @ startLine # post)"
    proof (rule ccontr)
      assume "\<not> ?thesis"
      from collectSnippetLines_disabled [OF this] a show False by auto
    qed
    from a show ?thesis by (intro dangling_content [OF _ en]) auto
  qed
qed

theorem dangling_region_is_kept_witness:
  "wellTagged [] []
     ([''// [SNIPPETS_SEPARATION enabled]''] @ ''// [START a]'' # [''L1'', ''L2'']) \<and>
   collectSnippetLines
     ([''// [SNIPPETS_SEPARATION enabled]''] @ ''// [START a]'' # [''L1'', ''L2'']) =
     Inr \<lparr>enabled = True, suffix = ''_modular'',
          map' = [(''a'', [''// [START a]'', ''L1'', ''L2''])]\<rparr> \<and>
   (\<exists>config. collectSnippetLines
        ([''// [SNIPPETS_SEPARATION enabled]''] @ ''// [START a]'' # [''L1'', ''L2'']) =
        Inr config \<and>
      map_of (map' config) ''a'' =
        Some (''// [START a]'' # filter (\<lambda>l. classify l = Plain) [''L1'', ''L2'']))"
proof -
  let ?file = "[''// [SNIPPETS_SEPARATION enabled]''] @ ''// [START a]'' # [''L1'', ''L2'']"
  have w: "wellTagged [] [] ?file" by code_simp
  have m: "match ''// [SNIPPETS_SEPARATION enabled]'' RE_SNIPPETS_SEPARATION \<noteq> None"
    by code_simp
  then have en: "list_ex (\<lambda>l. match l RE_SNIPPETS_SEPARATION \<noteq> None) ?file" by simp
  have r: "collectSnippetLines ?file =
     Inr \<lparr>enabled = True, suffix = ''_modular'',
          map' = [(''a'', [''// [START a]'', ''L1'', ''L2''])]\<rparr>"
    by code_simp
  have s: "classify ''// [START a]'' = Start ''a''" by code_simp
  have p1: "classify ''L1'' = Plain" by code_simp
  have p2: "classify ''L2'' = Plain" by code_simp
  have q: "\<forall>l\<in>set [''L1'', ''L2'']. classify l \<noteq> End ''a''" using p1 p2 by simp
  note t = dangling_region_is_kept
    [where pre = "[''// [SNIPPETS_SEPARATION enabled]'']" and startLine = "''// [START a]''"
       and post = "[''L1'', ''L2'']" and name = "''a''" and lines = ?file]
  from t [THEN conjunct2, THEN conjunct2, THEN conjunct1] en w s q
  have "\<exists>config. collectSnippetLines ?file = Inr config \<and>
      map_of (map' config) ''a'' =
        Some (''// [START a]'' # filter (\<lambda>l. classify l = Plain) [''L1'', ''L2''])"
    by blast
  with w r show ?thesis by (intro conjI)
qed

section \<open>The transforms\<close>


text \<open>
  The same region with its tags at the left margin: the empty line is
  removed as well, and the import line keeps its two spaces, since the least
  indentation of the region is then zero.
\<close>

lemma demo_unindented_tags:
  "processSnippet
       [''// [START demo]'', [], ''  const {x} = require('y')'', ''// [END demo]'']
       ''./demo.js'' ''_doc'' =
     Inr (joinWith ''\<newline>''
            (preambleLines ''./demo.js'' @
             [''// [START demo_doc]'', ''  import {x} from 'y'' @ [CHR 0x27],
              ''// [END demo_doc]'']))"
  by code_simp

text \<open>
  C6. When some line is not blank, let \<open>m\<close> be the least number of leading
  white space characters among the lines that are not blank. The
  normalization returns the empty string for every blank line and every other
  line without its first \<open>m\<close> characters. Those \<open>m\<close> characters are white
  space, so every line keeps its indentation relative to the others, and a
  line of least indentation starts with a character that is not white space.
\<close>

theorem indentation_normalized:
  assumes "\<exists>l\<in>set lines. \<not> isBlank l"
  shows "let m = Min ((\<lambda>l. length (takeWhile isWhiteSpace l)) ` {l \<in> set lines. \<not> isBlank l})
         in adjustIndentation lines = map (\<lambda>l. if isBlank l then [] else drop m l) lines \<and>
            (\<forall>l\<in>set lines. \<not> isBlank l \<longrightarrow>
                m \<le> length (takeWhile isWhiteSpace l) \<and>
                take m l = take m (takeWhile isWhiteSpace l) \<and>
                length (takeWhile isWhiteSpace (drop m l)) =
                  length (takeWhile isWhiteSpace l) - m) \<and>
            (\<exists>l\<in>set lines. \<not> isBlank l \<and> length (takeWhile isWhiteSpace l) = m \<and>
                drop m l \<noteq> [] \<and> \<not> isWhiteSpace (hd (drop m l)))"
proof -
  let ?ind = "\<lambda>l. length (takeWhile isWhiteSpace l)"
  let ?S = "?ind ` {l \<in> set lines. \<not> isBlank l}"
  let ?m = "Min ?S"
  have fin: "finite ?S" by simp
  from assms have ne: "?S \<noteq> {}" by auto
  have le: "\<And>l. l \<in> set lines \<Longrightarrow> \<not> isBlank l \<Longrightarrow> ?m \<le> ?ind l"
    using fin by (intro Min_le) auto
  have tk: "\<And>l. ?m \<le> ?ind l \<Longrightarrow> take ?m l = take ?m (takeWhile isWhiteSpace l)"
  proof -
    fix l :: string assume a: "?m \<le> ?ind l"
    have "take ?m l = take ?m (takeWhile isWhiteSpace l @ dropWhile isWhiteSpace l)" by simp
    also have "\<dots> = take ?m (takeWhile isWhiteSpace l)" using a by (simp del: takeWhile_dropWhile_id)
    finally show "take ?m l = take ?m (takeWhile isWhiteSpace l)" .
  qed
  have dr: "\<And>l. ?m \<le> ?ind l \<Longrightarrow> ?ind (drop ?m l) = ?ind l - ?m"
  proof -
    fix l :: string assume a: "?m \<le> ?ind l"
    have "drop ?m l = drop ?m (takeWhile isWhiteSpace l @ dropWhile isWhiteSpace l)" by simp
    also have "\<dots> = drop ?m (takeWhile isWhiteSpace l) @ dropWhile isWhiteSpace l"
      using a by (simp del: takeWhile_dropWhile_id)
    finally have d: "drop ?m l = drop ?m (takeWhile isWhiteSpace l) @ dropWhile isWhiteSpace l" .
    have all: "\<forall>c\<in>set (drop ?m (takeWhile isWhiteSpace l)). isWhiteSpace c"
      by (meson in_set_dropD set_takeWhileD)
    have "takeWhile isWhiteSpace (drop ?m l) = drop ?m (takeWhile isWhiteSpace l)"
    proof (cases "dropWhile isWhiteSpace l")
      case Nil
      with d all show ?thesis by (simp add: takeWhile_eq_all_conv)
    next
      case (Cons c cs)
      then have "\<not> isWhiteSpace c" by (metis hd_dropWhile list.sel(1) list.distinct(1))
      with d all Cons show ?thesis by (simp add: takeWhile_append2 del: takeWhile_dropWhile_id)
    qed
    then show "?ind (drop ?m l) = ?ind l - ?m" by simp
  qed
  from Min_in [OF fin ne] obtain l0 where
    l0: "l0 \<in> set lines" "\<not> isBlank l0" "?ind l0 = ?m" by auto
  have "drop ?m l0 = dropWhile isWhiteSpace l0"
    using l0(3) by (metis dropWhile_eq_drop)
  moreover from l0(2) have "dropWhile isWhiteSpace l0 \<noteq> []"
    by (auto simp: isBlank_iff dropWhile_eq_Nil_conv)
  ultimately have left: "drop ?m l0 \<noteq> [] \<and> \<not> isWhiteSpace (hd (drop ?m l0))"
    by (metis hd_dropWhile)
  have c1: "adjustIndentation lines = map (\<lambda>l. if isBlank l then [] else drop ?m l) lines"
    by (rule adjustIndentation_nonblank [OF assms])
  have c2: "\<forall>l\<in>set lines. \<not> isBlank l \<longrightarrow>
                ?m \<le> ?ind l \<and>
                take ?m l = take ?m (takeWhile isWhiteSpace l) \<and>
                ?ind (drop ?m l) = ?ind l - ?m"
    using le tk dr by blast
  have c3: "\<exists>l\<in>set lines. \<not> isBlank l \<and> ?ind l = ?m \<and>
                drop ?m l \<noteq> [] \<and> \<not> isWhiteSpace (hd (drop ?m l))"
    using l0 left by blast
  show ?thesis
    unfolding Let_def using c1 c2 c3 by (intro conjI)
qed

theorem indentation_normalized_witness:
  "(\<exists>l\<in>set [''    a'', '' '', ''  b'']. \<not> isBlank l) \<and>
   (let m = Min ((\<lambda>l. length (takeWhile isWhiteSpace l)) `
                   {l \<in> set [''    a'', '' '', ''  b'']. \<not> isBlank l})
    in adjustIndentation [''    a'', '' '', ''  b''] =
         map (\<lambda>l. if isBlank l then [] else drop m l) [''    a'', '' '', ''  b''] \<and>
       (\<forall>l\<in>set [''    a'', '' '', ''  b'']. \<not> isBlank l \<longrightarrow>
           m \<le> length (takeWhile isWhiteSpace l) \<and>
           take m l = take m (takeWhile isWhiteSpace l) \<and>
           length (takeWhile isWhiteSpace (drop m l)) =
             length (takeWhile isWhiteSpace l) - m) \<and>
       (\<exists>l\<in>set [''    a'', '' '', ''  b'']. \<not> isBlank l \<and>
           length (takeWhile isWhiteSpace l) = m \<and>
           drop m l \<noteq> [] \<and> \<not> isWhiteSpace (hd (drop m l)))) \<and>
   adjustIndentation [''    a'', '' '', ''  b''] = [''  a'', [], ''b'']"
proof -
  have b: "\<not> isBlank ''  b''" by code_simp
  then have h: "\<exists>l\<in>set [''    a'', '' '', ''  b'']. \<not> isBlank l" by simp
  have v: "adjustIndentation [''    a'', '' '', ''  b''] = [''  a'', [], ''b'']" by code_simp
  from h indentation_normalized [OF h] v show ?thesis by (intro conjI)
qed

text \<open>
  C7. The rewrite maps the line \<open>const {a, b} = require('x')\<close> to
  \<open>import {a, b} from 'x'\<close> and leaves the line \<open>import {a, b} from 'x'\<close>
  as it is; it returns one line for every line, and every line that
  \<open>RE_REQUIRE\<close> does not match is returned unchanged. No line without
  the text \<open>const {\<close> is matched, so lines in import form that do not hold
  that text are returned unchanged.
\<close>

theorem require_rewrite:
  "replaceRequireWithImport [''const {a, b} = require('x')''] =
     [''import {a, b} from 'x'' @ [CHR 0x27]] \<and>
   replaceRequireWithImport [''import {a, b} from 'x'' @ [CHR 0x27]] =
     [''import {a, b} from 'x'' @ [CHR 0x27]] \<and>
   length (replaceRequireWithImport lines) = length lines \<and>
   (\<forall>i<length lines. match (lines ! i) RE_REQUIRE = None \<longrightarrow>
        replaceRequireWithImport lines ! i = lines ! i) \<and>
   ((\<forall>l\<in>set lines. indexOf l ''const {'' = None) \<longrightarrow>
        replaceRequireWithImport lines = lines)"
proof (intro conjI)
  show "replaceRequireWithImport [''const {a, b} = require('x')''] =
     [''import {a, b} from 'x'' @ [CHR 0x27]]" by code_simp
  show "replaceRequireWithImport [''import {a, b} from 'x'' @ [CHR 0x27]] =
     [''import {a, b} from 'x'' @ [CHR 0x27]]" by code_simp
  show "length (replaceRequireWithImport lines) = length lines"
    by (simp add: replaceRequireWithImport_def)
  show "\<forall>i<length lines. match (lines ! i) RE_REQUIRE = None \<longrightarrow>
        replaceRequireWithImport lines ! i = lines ! i"
    by (simp add: replaceRequireWithImport_def)
  show "(\<forall>l\<in>set lines. indexOf l ''const {'' = None) \<longrightarrow>
        replaceRequireWithImport lines = lines"
    by (simp add: replaceRequireWithImport_def require_needs_const map_idI)
qed

theorem require_rewrite_witness:
  "indexOf ''import {a} from b'' ''const {'' = None \<and>
   replaceRequireWithImport [''import {a} from b''] = [''import {a} from b''] \<and>
   match ([''x = 1'', ''  const {a} = require(b);''] ! 0) RE_REQUIRE = None \<and>
   replaceRequireWithImport [''x = 1'', ''  const {a} = require(b);''] ! 0 = ''x = 1'' \<and>
   replaceRequireWithImport [''x = 1'', ''  const {a} = require(b);''] =
     [''x = 1'', ''  import {a} from b;'']"
proof -
  have n: "match ([''x = 1'', ''  const {a} = require(b);''] ! 0) RE_REQUIRE = None"
    by code_simp
  have v: "replaceRequireWithImport [''x = 1'', ''  const {a} = require(b);''] =
     [''x = 1'', ''  import {a} from b;'']" by code_simp
  from require_rewrite [of "[''x = 1'', ''  const {a} = require(b);'']"] n
  have w: "replaceRequireWithImport [''x = 1'', ''  const {a} = require(b);''] ! 0 = ''x = 1''"
    by simp
  have i: "indexOf ''import {a} from b'' ''const {'' = None" by code_simp
  from require_rewrite [of "[''import {a} from b'']"] i
  have u: "replaceRequireWithImport [''import {a} from b''] = [''import {a} from b'']"
    by simp
  from i u n w v show ?thesis by (intro conjI)
qed

text \<open>
  C8. No transform raises: the first three return one line for every line,
  and the last one, and so the whole pipeline, returns a result for every
  sequence of lines. Lines without a match of \<open>RE_REQUIRE\<close> are returned
  unchanged by the rewrite; lines that are all blank are returned as empty
  strings by the normalization; lines that all begin with \<open>//\<close>, and lines
  whose first line that does not begin with \<open>//\<close> is not blank, are returned
  unchanged by the last step. Every region the collector returns begins with
  its START line; the first line of such a region is not blank when it
  reaches the last step, so a region without a leading comment block is
  returned unchanged by that step.
\<close>

theorem transform_steps_total:
  "(\<exists>out. removeFirstLineAfterComments lines = Inr out) \<and>
   (\<exists>content. processSnippet lines sourceFile sfx = Inr content) \<and>
   length (replaceRequireWithImport lines) = length lines \<and>
   length (addSuffixToSnippetNames lines sfx) = length lines \<and>
   length (adjustIndentation lines) = length lines \<and>
   ((\<forall>l\<in>set lines. match l RE_REQUIRE = None) \<longrightarrow> replaceRequireWithImport lines = lines) \<and>
   ((\<forall>l\<in>set lines. isBlank l) \<longrightarrow> adjustIndentation lines = map (\<lambda>l. []) lines) \<and>
   ((\<forall>l\<in>set lines. startsWith l ''//'') \<longrightarrow> removeFirstLineAfterComments lines = Inr lines) \<and>
   ((\<forall>c\<in>set pre. startsWith c ''//'') \<and> \<not> startsWith l ''//'' \<and> \<not> isBlank l \<longrightarrow>
      removeFirstLineAfterComments (pre @ l # post) = Inr (pre @ l # post)) \<and>
   (collectSnippetLines fileLines = Inr config \<and> (name, region) \<in> set (map' config) \<longrightarrow>
      (\<exists>first rest. region = first # rest \<and> match first RE_START_SNIPPET \<noteq> None)) \<and>
   (match first RE_START_SNIPPET \<noteq> None \<longrightarrow>
      (\<exists>l' ls'. adjustIndentation
                  (addSuffixToSnippetNames (replaceRequireWithImport (first # rest)) sfx) =
                l' # ls' \<and>
              \<not> isBlank l' \<and>
              (\<not> startsWith l' ''//'' \<longrightarrow>
                 removeFirstLineAfterComments (l' # ls') = Inr (l' # ls'))))"
proof (intro conjI impI)
  show "\<exists>out. removeFirstLineAfterComments lines = Inr out"
    by (rule removeFirstLineAfterComments_total)
  show "\<exists>content. processSnippet lines sourceFile sfx = Inr content"
    using removeFirstLineAfterComments_total
      [of "adjustIndentation (addSuffixToSnippetNames (replaceRequireWithImport lines) sfx)"]
    by (auto simp: processSnippet_def Let_def)
  show "length (replaceRequireWithImport lines) = length lines"
    by (simp add: replaceRequireWithImport_def)
  show "length (addSuffixToSnippetNames lines sfx) = length lines"
    by (simp add: addSuffixToSnippetNames_def)
  show "length (adjustIndentation lines) = length lines"
    by (simp add: adjustIndentation_def Let_def)
  show "replaceRequireWithImport lines = lines" if "\<forall>l\<in>set lines. match l RE_REQUIRE = None"
    using that by (simp add: replaceRequireWithImport_def map_idI)
  show "adjustIndentation lines = map (\<lambda>l. []) lines" if "\<forall>l\<in>set lines. isBlank l"
    using that by (rule adjustIndentation_blank)
  show "removeFirstLineAfterComments lines = Inr lines" if "\<forall>l\<in>set lines. startsWith l ''//''"
    using that by (rule removeFirstLineAfterComments_comments)
  show "removeFirstLineAfterComments (pre @ l # post) = Inr (pre @ l # post)"
    if a: "(\<forall>c\<in>set pre. startsWith c ''//'') \<and> \<not> startsWith l ''//'' \<and> \<not> isBlank l"
  proof -
    from a have "removeFirstLineAfterComments (pre @ l # post) =
           Inr (if isBlank l then pre @ post else pre @ l # post)"
      by (intro removeFirstLineAfterComments_first) auto
    with a show ?thesis by simp
  qed
  show "\<exists>first rest. region = first # rest \<and> match first RE_START_SNIPPET \<noteq> None"
    if "collectSnippetLines fileLines = Inr config \<and> (name, region) \<in> set (map' config)"
    using that collected_region_starts_with_tag [of fileLines config name region] by blast
  show "\<exists>l' ls'. adjustIndentation
                  (addSuffixToSnippetNames (replaceRequireWithImport (first # rest)) sfx) =
                l' # ls' \<and>
              \<not> isBlank l' \<and>
              (\<not> startsWith l' ''//'' \<longrightarrow>
                 removeFirstLineAfterComments (l' # ls') = Inr (l' # ls'))"
    if a: "match first RE_START_SNIPPET \<noteq> None"
  proof -
    from region_first_line_not_blank [OF a, of rest sfx] obtain l' ls' where
      e: "adjustIndentation
            (addSuffixToSnippetNames (replaceRequireWithImport (first # rest)) sfx) = l' # ls'"
      and nb: "\<not> isBlank l'" by blast
    have "removeFirstLineAfterComments (l' # ls') = Inr (l' # ls')"
      if n: "\<not> startsWith l' ''//''"
    proof -
      have "removeFirstLineAfterComments ([] @ l' # ls') =
              Inr (if isBlank l' then [] @ ls' else [] @ l' # ls')"
        using n by (intro removeFirstLineAfterComments_first) auto
      with nb show ?thesis by simp
    qed
    with e nb show ?thesis by blast
  qed
qed

theorem transform_steps_total_witness:
  "replaceRequireWithImport [''// c'', ''//''] = [''// c'', ''//''] \<and>
   removeFirstLineAfterComments [''// c'', ''//''] = Inr [''// c'', ''//''] \<and>
   adjustIndentation ['' '', []] = map (\<lambda>l. []) ['' '', []] \<and>
   removeFirstLineAfterComments ([''// c''] @ ''x'' # [[]]) = Inr ([''// c''] @ ''x'' # [[]]) \<and>
   (\<exists>first rest. [''/* [START demo] */'', [], ''x''] = first # rest \<and>
      match first RE_START_SNIPPET \<noteq> None) \<and>
   removeFirstLineAfterComments [''/* [START demo_m] */'', [], ''x''] =
     Inr [''/* [START demo_m] */'', [], ''x'']"
proof -
  have r1: "match ''// c'' RE_REQUIRE = None" by code_simp
  have r2: "match ''//'' RE_REQUIRE = None" by code_simp
  have c1: "startsWith ''// c'' ''//''" by code_simp
  have c2: "startsWith ''//'' ''//''" by code_simp
  have b1: "isBlank '' ''" by code_simp
  have b2: "isBlank []" by code_simp
  have n1: "\<not> startsWith ''x'' ''//''" by code_simp
  have n3: "\<not> isBlank ''x''" by code_simp
  have f: "collectSnippetLines
             [''// [SNIPPETS_SEPARATION enabled]'', ''/* [START demo] */'', [], ''x''] =
           Inr \<lparr>enabled = True, suffix = ''_modular'',
                map' = [(''demo'', [''/* [START demo] */'', [], ''x''])]\<rparr>"
    by code_simp
  have s: "match ''/* [START demo] */'' RE_START_SNIPPET \<noteq> None" by code_simp
  have a3: "adjustIndentation
              (addSuffixToSnippetNames
                 (replaceRequireWithImport (''/* [START demo] */'' # [[], ''x'']))
                 ''_m'') = [''/* [START demo_m] */'', [], ''x'']"
    by code_simp
  have n4: "\<not> startsWith ''/* [START demo_m] */'' ''//''" by code_simp
  note t1 = transform_steps_total
    [where lines = "[''// c'', ''//'']" and pre = "[''// c'']" and l = "''x''" and post = "[[]]"
       and fileLines = "[''// [SNIPPETS_SEPARATION enabled]'', ''/* [START demo] */'', [], ''x'']"
       and config = "\<lparr>enabled = True, suffix = ''_modular'',
                map' = [(''demo'', [''/* [START demo] */'', [], ''x''])]\<rparr>"
       and name = "''demo''" and region = "[''/* [START demo] */'', [], ''x'']"
       and first = "''/* [START demo] */''" and rest = "[[], ''x'']" and sfx = "''_m''"]
  from t1 r1 r2 have w1: "replaceRequireWithImport [''// c'', ''//''] = [''// c'', ''//'']"
    by simp
  from t1 c1 c2 have w2: "removeFirstLineAfterComments [''// c'', ''//''] = Inr [''// c'', ''//'']"
    by simp
  from t1 c1 n1 n3
  have w3: "removeFirstLineAfterComments ([''// c''] @ ''x'' # [[]]) = Inr ([''// c''] @ ''x'' # [[]])"
    by simp
  from t1 f
  have w4: "\<exists>first rest. [''/* [START demo] */'', [], ''x''] = first # rest \<and>
      match first RE_START_SNIPPET \<noteq> None"
    by simp
  from t1 s obtain l' ls' where
    e: "adjustIndentation
          (addSuffixToSnippetNames
             (replaceRequireWithImport (''/* [START demo] */'' # [[], ''x''])) ''_m'') = l' # ls'"
    and imp: "\<not> startsWith l' ''//'' \<longrightarrow>
                 removeFirstLineAfterComments (l' # ls') = Inr (l' # ls')"
    by blast
  from e a3 have "l' = ''/* [START demo_m] */''" "ls' = [[], ''x'']" by simp_all
  with imp n4
  have w5: "removeFirstLineAfterComments [''/* [START demo_m] */'', [], ''x''] =
     Inr [''/* [START demo_m] */'', [], ''x'']"
    by simp
  from transform_steps_total [where lines = "['' '', []]"] b1 b2
  have w6: "adjustIndentation ['' '', []] = map (\<lambda>l. []) ['' '', []]" by simp
  from w1 w2 w6 w3 w4 w5 show ?thesis by (intro conjI)
qed

section \<open>Lines that hold both tags\<close>

text \<open>
  C10. A line that both \<open>RE_START_SNIPPET\<close> and \<open>RE_END_SNIPPET\<close> match is
  read as a START tag only. The scan does with it what it does with a START
  tag: the error for a duplicate name if the START name is taken, and a new
  open region that holds the line otherwise. The END name plays no part: the
  error for an unmatched END tag is never raised for it, and when the line is
  collected the END name is as open as it was and its region (if it is not
  the START name) holds the lines it held. Tag suffixing likewise applies the
  START template only: the text of the line outside the match of
  \<open>RE_START_SNIPPET\<close>, the END tag with it, is kept, and for a suffix without
  \<open>$\<close> the match is replaced by the START tag with the suffixed name.
\<close>

theorem start_wins_over_end:
  assumes "match line RE_START_SNIPPET = Some startMatch"
    and "match line RE_END_SNIPPET = Some endMatch"
  shows "collectLine line (config, names) =
           (if getProperty (map' config) (matchAt startMatch 1) \<noteq> Undefined
            then Inl (DuplicateSnippetName (matchAt startMatch 1))
            else Inr (config\<lparr>map' := AList.update (matchAt startMatch 1) [line] (map' config)\<rparr>,
                      names @ [matchAt startMatch 1])) \<and>
         collectLine line (config, names) \<noteq> Inl (UnmatchedEndTag (matchAt endMatch 1)) \<and>
         (\<forall>st'. collectLine line (config, names) = Inr st' \<longrightarrow>
            (matchAt endMatch 1 \<in> set names \<longrightarrow> matchAt endMatch 1 \<in> set (snd st')) \<and>
            (matchAt endMatch 1 \<noteq> matchAt startMatch 1 \<longrightarrow>
               map_of (map' (fst st')) (matchAt endMatch 1) =
               map_of (map' config) (matchAt endMatch 1))) \<and>
         addSuffixToSnippetNames [line] sfx =
           [replace line RE_START_SNIPPET (''[START $1'' @ sfx @ '']'')] \<and>
         line = take (index startMatch) line @ matched startMatch @
                drop (index startMatch + length (matched startMatch)) line \<and>
         (CHR ''$'' \<notin> set sfx \<longrightarrow>
            addSuffixToSnippetNames [line] sfx =
              [take (index startMatch) line @
               ''[START '' @ matchAt startMatch 1 @ sfx @ '']'' @
               drop (index startMatch + length (matched startMatch)) line])"
proof -
  have cl: "classify line = Start (matchAt startMatch 1)"
    using assms(1) by (simp add: classify_def)
  have c1: "collectLine line (config, names) =
           (if getProperty (map' config) (matchAt startMatch 1) \<noteq> Undefined
            then Inl (DuplicateSnippetName (matchAt startMatch 1))
            else Inr (config\<lparr>map' := AList.update (matchAt startMatch 1) [line] (map' config)\<rparr>,
                      names @ [matchAt startMatch 1]))"
    by (rule collectLine_Start [OF cl])
  have c2: "collectLine line (config, names) \<noteq> Inl (UnmatchedEndTag (matchAt endMatch 1))"
    by (simp add: c1)
  have c3: "\<forall>st'. collectLine line (config, names) = Inr st' \<longrightarrow>
            (matchAt endMatch 1 \<in> set names \<longrightarrow> matchAt endMatch 1 \<in> set (snd st')) \<and>
            (matchAt endMatch 1 \<noteq> matchAt startMatch 1 \<longrightarrow>
               map_of (map' (fst st')) (matchAt endMatch 1) =
               map_of (map' config) (matchAt endMatch 1))"
    by (auto simp: c1 update_conv' split: if_splits)
  have c4: "addSuffixToSnippetNames [line] sfx =
           [replace line RE_START_SNIPPET (''[START $1'' @ sfx @ '']'')]"
    using assms(1) by (simp add: addSuffixToSnippetNames_def)
  have c5: "line = take (index startMatch) line @ matched startMatch @
                drop (index startMatch + length (matched startMatch)) line"
    by (rule match_span [OF assms(1)])
  have c6: "addSuffixToSnippetNames [line] sfx =
              [take (index startMatch) line @
               ''[START '' @ matchAt startMatch 1 @ sfx @ '']'' @
               drop (index startMatch + length (matched startMatch)) line]"
    if d: "CHR ''$'' \<notin> set sfx"
  proof -
    from start_match_groups [OF assms(1)] obtain g where g: "groups startMatch = [g]"
      by (cases "groups startMatch") auto
    have "getSubstitution (matched startMatch) line (index startMatch) [g]
            (''[START '' @ ''$1'' @ sfx @ '']'') = ''[START '' @ g @ sfx @ '']''"
      using d by (intro getSubstitution_tag) auto
    then show ?thesis
      using assms(1) g by (simp add: c4 replace_def matchAt_def)
  qed
  from c1 c2 c3 c4 c5 c6 show ?thesis by blast
qed

theorem start_wins_over_end_witness:
  "match ''// [START a] [END b]'' RE_START_SNIPPET =
     Some \<lparr>index = 3, matched = ''[START a]'', groups = [''a'']\<rparr> \<and>
   match ''// [START a] [END b]'' RE_END_SNIPPET =
     Some \<lparr>index = 13, matched = ''[END b]'', groups = [''b'']\<rparr> \<and>
   collectLine ''// [START a] [END b]''
     (\<lparr>enabled = True, suffix = ''_x'', map' = [(''b'', [''// [START b]''])]\<rparr>, [''b'']) =
     Inr (\<lparr>enabled = True, suffix = ''_x'',
           map' = [(''b'', [''// [START b]'']), (''a'', [''// [START a] [END b]''])]\<rparr>,
          [''b'', ''a'']) \<and>
   addSuffixToSnippetNames [''// [START a] [END b]''] ''_x'' = [''// [START a_x] [END b]'']"
proof -
  let ?c = "\<lparr>enabled = True, suffix = ''_x'', map' = [(''b'', [''// [START b]''])]\<rparr>"
  have s: "match ''// [START a] [END b]'' RE_START_SNIPPET =
     Some \<lparr>index = 3, matched = ''[START a]'', groups = [''a'']\<rparr>" by code_simp
  have e: "match ''// [START a] [END b]'' RE_END_SNIPPET =
     Some \<lparr>index = 13, matched = ''[END b]'', groups = [''b'']\<rparr>" by code_simp
  have d: "CHR ''$'' \<notin> set ''_x''" by simp
  have u: "getProperty (map' ?c) ''a'' = Undefined" by code_simp
  note t = start_wins_over_end [OF s e, of ?c "[''b'']" "''_x''"]
  from t [THEN conjunct1] u
  have a: "collectLine ''// [START a] [END b]'' (?c, [''b'']) =
     Inr (\<lparr>enabled = True, suffix = ''_x'',
           map' = [(''b'', [''// [START b]'']), (''a'', [''// [START a] [END b]''])]\<rparr>,
          [''b'', ''a''])"
    by (simp add: matchAt_def)
  from t [THEN conjunct2, THEN conjunct2, THEN conjunct2, THEN conjunct2, THEN conjunct2] d
  have b: "addSuffixToSnippetNames [''// [START a] [END b]''] ''_x'' = [''// [START a_x] [END b]'']"
    by (simp add: matchAt_def)
  from s e a b show ?thesis by (intro conjI)
qed

section \<open>The path of a snippet's file\<close>

text \<open>
  C9, as the code has it. Let the source path be \<open>./\<close>, a relative path
  \<open>rel\<close> without empty segments, and the extension \<open>.js\<close>, where the
  extension is the first place at which the text \<open>.js\<close> occurs in the path;
  let the region name hold no path separator. Then the slug is \<open>rel\<close> with
  every dot replaced by \<open>-\<close> and every path separator kept, and the path
  of the region's file is \<open>snippets/<fileSlug>/<regionName>.js\<close>: the
  directories of the source path are directories below the output root.
\<close>

theorem output_path:
  assumes "indexOf (''./'' @ rel @ ''.js'') ''.js'' = Some (length rel + 2)"
    and "[] \<notin> set (splitOn (CHR ''/'') rel)"
    and "CHR ''/'' \<notin> set snippetName"
  shows "fileSlug (''./'' @ rel @ ''.js'') =
           map (\<lambda>c. if c = CHR ''.'' then CHR ''-'' else c) rel \<and>
         newFilePath (''./'' @ rel @ ''.js'') snippetName =
           ''snippets/'' @ fileSlug (''./'' @ rel @ ''.js'') @ ''/'' @ snippetName @ ''.js''"
proof -
  let ?f = "\<lambda>c. if c = CHR ''.'' then CHR ''-'' else c"
  define filePath where "filePath = ''./'' @ rel @ ''.js''"
  define slug where "slug = map ?f rel"
  define dir where "dir = ''snippets'' @ CHR ''/'' # slug"
  define base where "base = snippetName @ ''.js''"
  have slug: "fileSlug filePath = slug"
    unfolding filePath_def slug_def by (rule fileSlug_relative [OF assms(1)])
  have segs: "splitOn (CHR ''/'') slug = map (map ?f) (splitOn (CHR ''/'') rel)"
    unfolding slug_def by (rule splitOn_map) (auto split: if_splits)
  have good: "\<forall>seg\<in>set (splitOn (CHR ''/'') slug). seg \<noteq> [] \<and> seg \<noteq> ''.'' \<and> seg \<noteq> ''..''"
  proof
    fix seg assume "seg \<in> set (splitOn (CHR ''/'') slug)"
    then obtain s where s: "s \<in> set (splitOn (CHR ''/'') rel)" "seg = map ?f s"
      by (auto simp: segs)
    with assms(2) have "s \<noteq> []" by auto
    then have n1: "seg \<noteq> []" using s(2) by simp
    have nd: "CHR ''.'' \<notin> set seg" using s(2) by auto
    then have n2: "seg \<noteq> ''.''" by (intro notI) simp
    from nd have n3: "seg \<noteq> ''..''" by (intro notI) simp
    from n1 n2 n3 show "seg \<noteq> [] \<and> seg \<noteq> ''.'' \<and> seg \<noteq> ''..''" by (intro conjI)
  qed
  have ne: "slug \<noteq> []"
  proof
    assume "slug = []"
    then have "[] \<in> set (splitOn (CHR ''/'') slug)" by simp
    with good show False by blast
  qed
  have sn: "splitOn (CHR ''/'') ''snippets'' = [''snippets'']" by (rule splitOn_single) simp
  have "splitOn (CHR ''/'') (''snippets'' @ CHR ''/'' # slug) =
        splitOn (CHR ''/'') ''snippets'' @ splitOn (CHR ''/'') slug"
    by (rule splitOn_append)
  then have sd: "splitOn (CHR ''/'') dir = [''snippets''] @ splitOn (CHR ''/'') slug"
    by (simp only: sn dir_def)
  have g1: "\<forall>seg\<in>set (splitOn (CHR ''/'') dir). seg \<noteq> [] \<and> seg \<noteq> ''.'' \<and> seg \<noteq> ''..''"
    using good by (simp add: sd)
  have j1: "joinWith ''/'' (filter (\<lambda>a. a \<noteq> []) [''./snippets'', slug]) = ''./'' @ dir"
    using ne by (simp add: dir_def)
  have "snippetDir filePath =
          (let joined = ''./'' @ dir in if joined = [] then ''.'' else normalize joined)"
    by (simp only: snippetDir_def pathJoin_def slug j1)
  also have "\<dots> = normalize (''./'' @ dir)" by simp
  also have "\<dots> = dir" by (rule normalize_dot_slash [OF g1])
  finally have d: "snippetDir filePath = dir" .
  have dne: "dir \<noteq> []" by (simp add: dir_def)
  have bne: "base \<noteq> []" by (simp add: base_def)
  have nm: "splitOn (CHR ''/'') base = [base]"
    unfolding base_def using assms(3) by (intro splitOn_single) auto
  have sb: "splitOn (CHR ''/'') (dir @ CHR ''/'' # base) = splitOn (CHR ''/'') dir @ [base]"
    by (simp only: splitOn_append nm)
  have b1: "base \<noteq> ''.''" by (simp add: base_def)
  have b2: "base \<noteq> ''..''" by (simp add: base_def)
  have g2: "\<forall>seg\<in>set (splitOn (CHR ''/'') (dir @ CHR ''/'' # base)).
              seg \<noteq> [] \<and> seg \<noteq> ''.'' \<and> seg \<noteq> ''..''"
    using g1 bne b1 b2 by (simp add: sb)
  have j2: "joinWith ''/'' (filter (\<lambda>a. a \<noteq> []) [dir, base]) = dir @ CHR ''/'' # base"
    using dne bne by simp
  have "newFilePath filePath snippetName =
          (let joined = dir @ CHR ''/'' # base
           in if joined = [] then ''.'' else normalize joined)"
    by (simp only: newFilePath_def pathJoin_def d j2 base_def [symmetric])
  also have "\<dots> = normalize (dir @ CHR ''/'' # base)" by simp
  also have "\<dots> = dir @ CHR ''/'' # base"
    by (rule normalize_plain [OF g2])
  finally have "newFilePath filePath snippetName = ''snippets/'' @ slug @ ''/'' @ snippetName @ ''.js''"
    by (simp add: dir_def base_def)
  with slug show ?thesis by (simp add: filePath_def slug_def)
qed

theorem output_path_witness:
  "fileSlug (''./'' @ ''auth.v2/email'' @ ''.js'') = ''auth-v2/email'' \<and>
   newFilePath (''./'' @ ''auth.v2/email'' @ ''.js'') ''demo'' =
     ''snippets/auth-v2/email/demo.js''"
proof -
  have h1: "indexOf (''./'' @ ''auth.v2/email'' @ ''.js'') ''.js'' =
              Some (length ''auth.v2/email'' + 2)" by code_simp
  have h2: "[] \<notin> set (splitOn (CHR ''/'') ''auth.v2/email'')" by code_simp
  have h3: "CHR ''/'' \<notin> set ''demo''" by simp
  from output_path [OF h1 h2 h3] show ?thesis by simp
qed

text \<open>
  C9 as the specification states it fails: for the source path
  \<open>./auth.v2/email.js\<close> the slug is \<open>auth-v2/email\<close>, where the dot has
  become \<open>-\<close> and the path separator is still \<open>/\<close>, so no single
  separator character stands for both.
\<close>

theorem output_path_counterexample:
  "fileSlug ''./auth.v2/email.js'' = ''auth-v2/email'' \<and>
   newFilePath ''./auth.v2/email.js'' ''demo'' = ''snippets/auth-v2/email/demo.js'' \<and>
   \<not> (\<exists>sep. fileSlug ''./auth.v2/email.js'' = specSlug sep ''./auth.v2/email.js'')"
proof (intro conjI)
  show a: "fileSlug ''./auth.v2/email.js'' = ''auth-v2/email''" by code_simp
  show "newFilePath ''./auth.v2/email.js'' ''demo'' = ''snippets/auth-v2/email/demo.js''"
    by code_simp
  have "specSlug sep ''./auth.v2/email.js'' = ''auth'' @ [sep] @ ''v2'' @ [sep] @ ''email''" for sep
    by (simp add: specSlug_def stripPrefix_def stripSuffix_def)
  then show "\<not> (\<exists>sep. fileSlug ''./auth.v2/email.js'' = specSlug sep ''./auth.v2/email.js'')"
    by (auto simp: a)
qed

end
